theory Spec2Isabelle
  imports Main "HOL-Library.Multiset" "HOL-Library.Word"
begin

unbundle bit_operations_syntax

section \<open>The quad tree of spatial/quadtree.js\<close>

text \<open>
  The theory embeds the class \<open>QuadTree\<close> of \<^verbatim>\<open>src/spatial/quadtree.js\<close>: the ordered
  list of items and its comparators, the update queue, and the selection cursor.
  Item objects live in a store indexed by item identifiers; the tree's linked lists hold
  identifiers. Coordinates and Z-indices are integers, the integral finite JavaScript
  numbers of the source; comparisons of such numbers are exact, and a sum is rounded as the
  addition of the source rounds it (\<open>js_add\<close> below).
\<close>

subsection \<open>Rectangles and items\<close>

type_synonym item_id = nat

record rect =
  x1 :: int
  y1 :: int
  x2 :: int
  y2 :: int
  cx :: int
  cy :: int

text \<open>
  Modelled from the spec: the containment and intersection tests of the geometry module
  (\<^verbatim>\<open>math/rect.js\<close> is not among the sources). Both are closed tests on the corners.
\<close>

definition rect_contains :: "rect \<Rightarrow> rect \<Rightarrow> bool" where
  "rect_contains r b \<longleftrightarrow> x1 r \<le> x1 b \<and> y1 r \<le> y1 b \<and> x2 b \<le> x2 r \<and> y2 b \<le> y2 r"

definition rect_intersects :: "rect \<Rightarrow> rect \<Rightarrow> bool" where
  "rect_intersects r b \<longleftrightarrow> x1 r \<le> x2 b \<and> x1 b \<le> x2 r \<and> y1 r \<le> y2 b \<and> y1 b \<le> y2 r"

text \<open>
  A \<open>QuadTreeItem\<close>: the fields that \<^verbatim>\<open>quadtree.js\<close> reads and writes. \<open>insertionBounds\<close>
  is what \<open>isBefore\<close> hands to the comparator; nothing in \<^verbatim>\<open>quadtree.js\<close> writes it.
\<close>

record item =
  bounds :: rect
  insertionBounds :: rect
  zindex :: int
  flags :: "32 word"
  item_selectedIndex :: int

text \<open>
  Modelled from the spec: the flag constants of \<open>QuadTreeItem\<close> (\<^verbatim>\<open>quadtree-item.js\<close> is
  not among the sources). The spec has \<open>flags\<close> as a bitset of ATTACHED, SELECTED and QUEUED;
  they are three distinct bits here.
\<close>

definition FLAG_ATTACHED :: "32 word" where "FLAG_ATTACHED = 1"
definition FLAG_SELECTED :: "32 word" where "FLAG_SELECTED = 2"
definition FLAG_QUEUED :: "32 word" where "FLAG_QUEUED = 4"

subsection \<open>The tree\<close>

record axes =
  xd :: bool
  yd :: bool
  zd :: bool

text \<open>
  The comparator held in \<open>fnComparator\<close>: one of the seven comparators the class supplies,
  or a function of the caller.
\<close>

datatype comparator =
    DEFAULT_YX
  | DEFAULT_XY
  | MANHATTAN
  | Y2
  | Y1
  | X2
  | X1
  | CUSTOM "axes \<Rightarrow> rect \<Rightarrow> rect \<Rightarrow> item \<Rightarrow> item \<Rightarrow> bool"

text \<open>
  Modelled from the spec: a \<open>QuadTreeNode\<close> (\<^verbatim>\<open>quadtree-node.js\<close> is not among the sources).
  Only the region of the node is kept; the items its nodes hold are the tree's list \<open>items\<close>
  ("all inserted items, linearly grouped by node").
\<close>

record QuadTreeNode =
  extents :: rect

text \<open>
  The fields of \<open>QuadTree\<close>. The three lists are the values of the linked lists from top to
  bottom, and \<open>nextItem\<close> is a position in \<open>orderedItems\<close> (\<open>None\<close> is \<open>null\<close>).
  \<open>objs\<close> is the store of the item objects the caller owns, and \<open>notified\<close> records the calls
  of \<open>notifyPosition\<close>, the callback of the items, oldest first.
\<close>

record quadtree = axes +
  root :: QuadTreeNode
  items :: "item_id list"
  orderedItems :: "item_id list"
  updateQueue :: "item_id list"
  nodeCapacity :: nat
  nextItem :: "nat option"
  selectedCount :: int
  selectedIndex :: int
  isReverse :: bool
  visible :: bool
  fnComparator :: comparator
  objs :: "item_id \<Rightarrow> item"
  notified :: "item_id list"

subsection \<open>Sums of numbers\<close>

text \<open>
  The numbers of the source are double-precision floats, so \<open>+\<close> rounds: an exact integer
  result of 2^53 or more in magnitude is rounded to 53 significant bits, to the nearest
  such value and to the one with an even last bit on a tie, and a rounded result of 2^1024
  or more is \<open>Infinity\<close>, kept here as 2^1024 with its sign.
\<close>

function bit_length :: "int \<Rightarrow> nat" where
  "bit_length a = (if a \<le> 0 then 0 else Suc (bit_length (a div 2)))"
  by pat_completeness auto
termination
  by (relation "measure nat") auto

declare bit_length.simps [simp del]

definition round_to_double :: "int \<Rightarrow> int" where
  "round_to_double n =
     (if \<bar>n\<bar> < 2 ^ 53 then n
      else (let e = bit_length \<bar>n\<bar> - 53;
                m = \<bar>n\<bar> div 2 ^ e;
                r = \<bar>n\<bar> mod 2 ^ e;
                m' = (if 2 * r < 2 ^ e then m
                      else if 2 ^ e < 2 * r then m + 1
                      else if even m then m else m + 1);
                v = m' * 2 ^ e
            in sgn n * (if 2 ^ 1024 \<le> v then 2 ^ 1024 else v)))"

definition js_add :: "int \<Rightarrow> int \<Rightarrow> int" where
  "js_add a b = round_to_double (a + b)"

subsection \<open>Comparators\<close>

text \<open>
  \<open>^\<close> of the source is exclusive or on the truth values of a comparison and of a direction
  flag; it binds tighter than \<open>&&\<close> and \<open>||\<close>.
\<close>

definition COMPARATOR_DEFAULT_YX :: "'a axes_scheme \<Rightarrow> rect \<Rightarrow> rect \<Rightarrow> item \<Rightarrow> item \<Rightarrow> bool" where
  "COMPARATOR_DEFAULT_YX this a b p q \<longleftrightarrow>
     ((zindex p < zindex q) \<noteq> zd this) \<or>
     (zindex p = zindex q \<and>
       (((y1 a < y1 b) \<noteq> yd this) \<or> (y1 a = y1 b \<and> ((x1 a < x1 b) \<noteq> xd this))))"

definition COMPARATOR_DEFAULT_XY :: "'a axes_scheme \<Rightarrow> rect \<Rightarrow> rect \<Rightarrow> item \<Rightarrow> item \<Rightarrow> bool" where
  "COMPARATOR_DEFAULT_XY this a b p q \<longleftrightarrow>
     ((zindex p < zindex q) \<noteq> zd this) \<or>
     (zindex p = zindex q \<and>
       (((x1 a < x1 b) \<noteq> xd this) \<or> (x1 a = x1 b \<and> ((y1 a < y1 b) \<noteq> yd this))))"

definition COMPARATOR_MANHATTAN :: "'a axes_scheme \<Rightarrow> rect \<Rightarrow> rect \<Rightarrow> item \<Rightarrow> item \<Rightarrow> bool" where
  "COMPARATOR_MANHATTAN this a b p q \<longleftrightarrow>
     ((zindex p < zindex q) \<noteq> zd this) \<or>
     (zindex p = zindex q \<and> js_add (cx a) (cy a) < js_add (cx b) (cy b))"

definition COMPARATOR_Y2 :: "'a axes_scheme \<Rightarrow> rect \<Rightarrow> rect \<Rightarrow> item \<Rightarrow> item \<Rightarrow> bool" where
  "COMPARATOR_Y2 this a b p q \<longleftrightarrow>
     ((zindex p < zindex q) \<noteq> zd this) \<or>
     (zindex p = zindex q \<and>
       (((y2 a < y2 b) \<noteq> yd this) \<or> (y2 a = y2 b \<and> ((x1 a \<le> x1 b) \<noteq> xd this))))"

definition COMPARATOR_Y1 :: "'a axes_scheme \<Rightarrow> rect \<Rightarrow> rect \<Rightarrow> item \<Rightarrow> item \<Rightarrow> bool" where
  "COMPARATOR_Y1 this a b p q \<longleftrightarrow>
     (js_add (y1 a) (zindex p) < js_add (y1 b) (zindex q)) \<noteq> yd this"

definition COMPARATOR_X2 :: "'a axes_scheme \<Rightarrow> rect \<Rightarrow> rect \<Rightarrow> item \<Rightarrow> item \<Rightarrow> bool" where
  "COMPARATOR_X2 this a b p q \<longleftrightarrow>
     (js_add (x2 a) (zindex p) < js_add (x2 b) (zindex q)) \<noteq> xd this"

definition COMPARATOR_X1 :: "'a axes_scheme \<Rightarrow> rect \<Rightarrow> rect \<Rightarrow> item \<Rightarrow> item \<Rightarrow> bool" where
  "COMPARATOR_X1 this a b p q \<longleftrightarrow>
     (js_add (x1 a) (zindex p) < js_add (x1 b) (zindex q)) \<noteq> xd this"

text \<open>The call \<open>this.fnComparator(a, b, p, q)\<close>.\<close>

fun call_comparator :: "comparator \<Rightarrow> quadtree \<Rightarrow> rect \<Rightarrow> rect \<Rightarrow> item \<Rightarrow> item \<Rightarrow> bool" where
  "call_comparator DEFAULT_YX this a b p q = COMPARATOR_DEFAULT_YX this a b p q"
| "call_comparator DEFAULT_XY this a b p q = COMPARATOR_DEFAULT_XY this a b p q"
| "call_comparator MANHATTAN this a b p q = COMPARATOR_MANHATTAN this a b p q"
| "call_comparator Y2 this a b p q = COMPARATOR_Y2 this a b p q"
| "call_comparator Y1 this a b p q = COMPARATOR_Y1 this a b p q"
| "call_comparator X2 this a b p q = COMPARATOR_X2 this a b p q"
| "call_comparator X1 this a b p q = COMPARATOR_X1 this a b p q"
| "call_comparator (CUSTOM f) this a b p q = f (axes.truncate this) a b p q"

definition setXd :: "bool \<Rightarrow> quadtree \<Rightarrow> bool \<times> quadtree" where
  "setXd v this = (if xd this = v then (False, this) else (True, this\<lparr>xd := v\<rparr>))"

definition setYd :: "bool \<Rightarrow> quadtree \<Rightarrow> bool \<times> quadtree" where
  "setYd v this = (if yd this = v then (False, this) else (True, this\<lparr>yd := v\<rparr>))"

definition setZd :: "bool \<Rightarrow> quadtree \<Rightarrow> bool \<times> quadtree" where
  "setZd v this = (if zd this = v then (False, this) else (True, this\<lparr>zd := v\<rparr>))"

definition setComparator :: "comparator \<Rightarrow> quadtree \<Rightarrow> bool \<times> quadtree" where
  "setComparator c this =
     (if fnComparator this = c then (False, this) else (True, this\<lparr>fnComparator := c\<rparr>))"

definition isBefore :: "quadtree \<Rightarrow> item_id \<Rightarrow> item_id \<Rightarrow> bool" where
  "isBefore this p q =
     call_comparator (fnComparator this) this
       (insertionBounds (objs this p)) (insertionBounds (objs this q)) (objs this p) (objs this q)"

subsection \<open>The ordered list\<close>

text \<open>
  The loop of \<open>addItemOrdered\<close> over the nodes of \<open>orderedItems\<close> from the top: the item goes
  before the first value it is before (\<open>insertBefore\<close>), and to the bottom (\<open>push\<close>) when
  there is none.
\<close>

fun addItemOrdered_scan :: "quadtree \<Rightarrow> item_id \<Rightarrow> item_id list \<Rightarrow> item_id list" where
  "addItemOrdered_scan this item [] = [item]"
| "addItemOrdered_scan this item (v # rest) =
     (if isBefore this item v then item # v # rest
      else v # addItemOrdered_scan this item rest)"

definition addItemOrdered :: "item_id \<Rightarrow> quadtree \<Rightarrow> quadtree" where
  "addItemOrdered item this =
     this\<lparr>orderedItems := addItemOrdered_scan this item (orderedItems this)\<rparr>"

text \<open>The loop of \<open>reorderItems\<close> over the values of the previous list \<open>tmp\<close>.\<close>

fun reorderItems_loop :: "item_id list \<Rightarrow> quadtree \<Rightarrow> quadtree" where
  "reorderItems_loop [] this = this"
| "reorderItems_loop (v # rest) this = reorderItems_loop rest (addItemOrdered v this)"

definition reorderItems :: "quadtree \<Rightarrow> quadtree" where
  "reorderItems this =
     (let tmp = orderedItems this in reorderItems_loop tmp (this\<lparr>orderedItems := []\<rparr>))"

subsection \<open>The linked list\<close>

text \<open>
  Modelled from the spec: the operations of \<open>List\<close> that \<^verbatim>\<open>quadtree.js\<close> calls
  (\<^verbatim>\<open>utils/list.js\<close> is not among the sources). A list is the sequence of its values from
  \<open>top\<close> to \<open>bottom\<close> and a node is its position; \<open>push\<close> appends at the bottom, as its
  callers in \<^verbatim>\<open>system.js\<close> rely on. \<open>sgetNode\<close> finds the first node holding a value and
  \<open>remove\<close> unlinks a node (nothing for \<open>null\<close>). The spec has \<open>update\<close> drain the queue
  first in, first out, so \<open>pop\<close> takes the value at the top, the oldest one pushed.
\<close>

definition List_top :: "'a list \<Rightarrow> nat option" where
  "List_top xs = (if xs = [] then None else Some 0)"

definition List_bottom :: "'a list \<Rightarrow> nat option" where
  "List_bottom xs = (if xs = [] then None else Some (length xs - 1))"

definition List_next :: "'a list \<Rightarrow> nat \<Rightarrow> nat option" where
  "List_next xs i = (if Suc i < length xs then Some (Suc i) else None)"

definition List_prev :: "'a list \<Rightarrow> nat \<Rightarrow> nat option" where
  "List_prev xs i = (if i = 0 \<or> length xs \<le> i then None else Some (i - 1))"

definition List_push :: "'a \<Rightarrow> 'a list \<Rightarrow> 'a list" where
  "List_push v xs = xs @ [v]"

fun List_sgetNode :: "'a \<Rightarrow> 'a list \<Rightarrow> nat option" where
  "List_sgetNode v [] = None"
| "List_sgetNode v (w # rest) =
     (if w = v then Some 0 else map_option Suc (List_sgetNode v rest))"

definition List_remove :: "nat option \<Rightarrow> 'a list \<Rightarrow> 'a list" where
  "List_remove node xs = (case node of None \<Rightarrow> xs | Some i \<Rightarrow> take i xs @ drop (Suc i) xs)"

definition List_pop :: "'a list \<Rightarrow> 'a option \<times> 'a list" where
  "List_pop xs = (case xs of [] \<Rightarrow> (None, []) | v # rest \<Rightarrow> (Some v, rest))"

subsection \<open>The root node\<close>

definition has_flag :: "32 word \<Rightarrow> item \<Rightarrow> bool" where
  "has_flag f p \<longleftrightarrow> flags p AND f \<noteq> 0"

definition set_flag :: "32 word \<Rightarrow> item \<Rightarrow> item" where
  "set_flag f p = p\<lparr>flags := flags p OR f\<rparr>"

definition clear_flag :: "32 word \<Rightarrow> item \<Rightarrow> item" where
  "clear_flag f p = p\<lparr>flags := flags p AND NOT f\<rparr>"

text \<open>
  Modelled from the spec: \<open>addItem\<close>, \<open>removeItem\<close> and \<open>selectItems\<close> of \<open>QuadTreeNode\<close>
  (\<^verbatim>\<open>quadtree-node.js\<close> is not among the sources), at the level of their contracts.
  Insertion fails, touching nothing, when the bounds of the item are not fully contained in
  the region of the node; otherwise the item is linked into the tree and ATTACHED is set.
  Removal unlinks the item and clears ATTACHED. Selection marks every item held by a node
  whose bounds intersect the rectangle (any item when the rectangle is \<open>null\<close>) and that
  passes the filter (when there is one), and counts it in \<open>selectedCount\<close>. The division of
  a node into four quadrants, which decides where in the tree an item is kept and which
  subtrees a selection visits, is not modelled.
\<close>

definition QuadTreeNode_addItem :: "item_id \<Rightarrow> nat \<Rightarrow> quadtree \<Rightarrow> bool \<times> quadtree" where
  "QuadTreeNode_addItem item capacity this =
     (if \<not> rect_contains (extents (root this)) (bounds (objs this item)) then (False, this)
      else (True, this\<lparr>items := List_push item (items this),
                        objs := (objs this)(item := set_flag FLAG_ATTACHED (objs this item))\<rparr>))"

definition QuadTreeNode_removeItem :: "item_id \<Rightarrow> quadtree \<Rightarrow> bool \<times> quadtree" where
  "QuadTreeNode_removeItem item this =
     (True, this\<lparr>items := List_remove (List_sgetNode item (items this)) (items this),
                  objs := (objs this)(item := clear_flag FLAG_ATTACHED (objs this item))\<rparr>)"

definition selects :: "rect option \<Rightarrow> (item \<Rightarrow> bool) option \<Rightarrow> item \<Rightarrow> bool" where
  "selects rect flt p \<longleftrightarrow>
     (case rect of None \<Rightarrow> True | Some r \<Rightarrow> rect_intersects r (bounds p)) \<and>
     (case flt of None \<Rightarrow> True | Some f \<Rightarrow> f p)"

fun QuadTreeNode_selectItems_loop ::
  "rect option \<Rightarrow> (item \<Rightarrow> bool) option \<Rightarrow> item_id list \<Rightarrow> quadtree \<Rightarrow> quadtree" where
  "QuadTreeNode_selectItems_loop rect flt [] this = this"
| "QuadTreeNode_selectItems_loop rect flt (v # rest) this =
     QuadTreeNode_selectItems_loop rect flt rest
       (if selects rect flt (objs this v)
        then this\<lparr>objs := (objs this)(v := set_flag FLAG_SELECTED (objs this v)),
                  selectedCount := selectedCount this + 1\<rparr>
        else this)"

definition QuadTreeNode_selectItems ::
  "rect option \<Rightarrow> (item \<Rightarrow> bool) option \<Rightarrow> quadtree \<Rightarrow> quadtree" where
  "QuadTreeNode_selectItems rect flt this =
     QuadTreeNode_selectItems_loop rect flt (items this) this"

subsection \<open>Adding, removing and updating items\<close>

definition addItem :: "item_id \<Rightarrow> quadtree \<Rightarrow> bool \<times> quadtree" where
  "addItem item this =
     (case QuadTreeNode_addItem item (nodeCapacity this) this of
        (True, this') \<Rightarrow> (True, addItemOrdered item this')
      | (False, this') \<Rightarrow> (False, this'))"

definition removeItem :: "item_id \<Rightarrow> quadtree \<Rightarrow> bool \<times> quadtree" where
  "removeItem item this =
     (if \<not> has_flag FLAG_ATTACHED (objs this item) then (True, this)
      else (case QuadTreeNode_removeItem item this of
              (False, this') \<Rightarrow> (False, this')
            | (True, this') \<Rightarrow>
                (True, this'\<lparr>orderedItems :=
                   List_remove (List_sgetNode item (orderedItems this')) (orderedItems this')\<rparr>)))"

text \<open>
  A call either returns or throws; the tree is given in both cases, since what the call did
  before the \<open>throw\<close> stays done.
\<close>

datatype outcome = Returned quadtree | Thrown string quadtree

fun tree_of :: "outcome \<Rightarrow> quadtree" where
  "tree_of (Returned this) = this"
| "tree_of (Thrown msg this) = this"

definition updateItem :: "item_id \<Rightarrow> quadtree \<Rightarrow> outcome" where
  "updateItem item this =
     (let this1 = snd (removeItem item this);
          (added, this2) = addItem item this1
      in if \<not> added then Thrown ''Unable to re-attach item to quadtree.'' this2
         else if has_flag FLAG_QUEUED (objs this2 item) then Returned this2
         else Returned (this2\<lparr>updateQueue := List_push item (updateQueue this2),
                               objs := (objs this2)(item := set_flag FLAG_QUEUED (objs this2 item))\<rparr>))"

text \<open>
  \<open>notifyPosition\<close> is a method of the item, outside the tree: the call is recorded, and the
  callback is taken not to call back into the tree.
\<close>

definition notifyPosition :: "item_id \<Rightarrow> quadtree \<Rightarrow> quadtree" where
  "notifyPosition i this = this\<lparr>notified := notified this @ [i]\<rparr>"

function update :: "quadtree \<Rightarrow> quadtree" where
  "update this =
     (case List_pop (updateQueue this) of
        (None, q) \<Rightarrow> this\<lparr>updateQueue := q\<rparr>
      | (Some i, q) \<Rightarrow>
          update (notifyPosition i
            (this\<lparr>updateQueue := q,
                   objs := (objs this)(i := clear_flag FLAG_QUEUED (objs this i))\<rparr>)))"
  by pat_completeness auto
termination
  by (relation "measure (\<lambda>this. length (updateQueue this))")
     (auto simp: List_pop_def notifyPosition_def split: list.splits)

declare update.simps [simp del]

subsection \<open>Selection\<close>

definition selectItems ::
  "rect option \<Rightarrow> (item \<Rightarrow> bool) option \<Rightarrow> bool option \<Rightarrow> quadtree \<Rightarrow> int \<times> quadtree" where
  "selectItems rect flt isReverse' this =
     (let backward = (case isReverse' of None \<Rightarrow> isReverse this | Some b \<Rightarrow> b);
          this1 = this\<lparr>selectedCount := 0, selectedIndex := 0\<rparr>;
          this2 = QuadTreeNode_selectItems rect flt this1;
          this3 = this2\<lparr>nextItem :=
                    (if backward then List_bottom (orderedItems this2) else List_top (orderedItems this2))\<rparr>
      in (selectedCount this3, this3))"

text \<open>
  The \<open>while\<close> loop of \<open>getNextSelected\<close>: from the node \<open>c\<close>, follow \<open>prev\<close> or \<open>next\<close> up to
  the first node whose value is SELECTED. A position outside the list is no node.
\<close>

function getNextSelected_skip :: "bool \<Rightarrow> quadtree \<Rightarrow> nat option \<Rightarrow> nat option" where
  "getNextSelected_skip backward this None = None"
| "getNextSelected_skip backward this (Some i) =
     (if length (orderedItems this) \<le> i then None
      else if \<not> has_flag FLAG_SELECTED (objs this (orderedItems this ! i))
      then getNextSelected_skip backward this
             (if backward then List_prev (orderedItems this) i else List_next (orderedItems this) i)
      else Some i)"
  by pat_completeness auto
termination
  by (relation "measure (\<lambda>(backward, this, c).
        case c of None \<Rightarrow> 0 | Some i \<Rightarrow> if backward then Suc i else Suc (length (orderedItems this) - i))")
     (auto simp: List_prev_def List_next_def)

definition getNextSelected :: "bool option \<Rightarrow> quadtree \<Rightarrow> item_id option \<times> quadtree" where
  "getNextSelected isReverse' this =
     (let backward = (case isReverse' of None \<Rightarrow> isReverse this | Some b \<Rightarrow> b);
          this1 = this\<lparr>nextItem := getNextSelected_skip backward this (nextItem this)\<rparr>
      in case nextItem this1 of
           None \<Rightarrow> (None, this1)
         | Some i \<Rightarrow>
            (let v = orderedItems this1 ! i;
                 this2 = this1\<lparr>objs := (objs this1)(v := clear_flag FLAG_SELECTED (objs this1 v))\<rparr>;
                 this3 = this2\<lparr>nextItem :=
                           (if backward then List_prev (orderedItems this2) i
                            else List_next (orderedItems this2) i)\<rparr>;
                 this4 = this3\<lparr>objs := (objs this3)
                           (v := (objs this3 v)\<lparr>item_selectedIndex := selectedIndex this3\<rparr>)\<rparr>
             in (Some v, this4\<lparr>selectedIndex := selectedIndex this4 + 1,
                               selectedCount := selectedCount this4 - 1\<rparr>)))"

definition setReverse :: "bool \<Rightarrow> quadtree \<Rightarrow> quadtree" where
  "setReverse v this = this\<lparr>isReverse := v\<rparr>"

text \<open>
  The values a traversal from the node \<open>c\<close> still has before it, in the order in which it
  meets them: from \<open>c\<close> down to the bottom, or backward from \<open>c\<close> up to the top.
\<close>

definition ahead :: "bool \<Rightarrow> item_id list \<Rightarrow> nat option \<Rightarrow> item_id list" where
  "ahead backward xs c =
     (case c of None \<Rightarrow> []
      | Some i \<Rightarrow> if length xs \<le> i then []
                  else if backward then rev (take (Suc i) xs) else drop i xs)"

definition traversal :: "bool option \<Rightarrow> quadtree \<Rightarrow> item_id list" where
  "traversal isReverse' this =
     ahead (case isReverse' of None \<Rightarrow> isReverse this | Some b \<Rightarrow> b)
       (orderedItems this) (nextItem this)"

text \<open>
  The caller's loop: \<open>getNextSelected()\<close> is called until it returns \<open>null\<close>, and the items
  it returned are collected in order. \<open>None\<close> stands for a loop that does not end.
\<close>

partial_function (option) drain :: "quadtree \<Rightarrow> (item_id list \<times> quadtree) option" where
  "drain this =
     (case getNextSelected None this of
        (None, this') \<Rightarrow> Some ([], this')
      | (Some v, this') \<Rightarrow> Option.bind (drain this') (\<lambda>r. Some (v # fst r, snd r)))"

subsection \<open>Construction\<close>

text \<open>
  The constructor \<open>__ctor\<close>, over the item objects that exist; the fields it does not set
  have the defaults of the class.
\<close>

definition new_QuadTree :: "int \<Rightarrow> int \<Rightarrow> int \<Rightarrow> int \<Rightarrow> nat \<Rightarrow> (item_id \<Rightarrow> item) \<Rightarrow> quadtree" where
  "new_QuadTree ax ay bx by capacity os =
     \<lparr>xd = False, yd = False, zd = False,
      root = \<lparr>extents = \<lparr>x1 = ax, y1 = ay, x2 = bx, y2 = by,
                          cx = (ax + bx) div 2, cy = (ay + by) div 2\<rparr>\<rparr>,
      items = [], orderedItems = [], updateQueue = [],
      nodeCapacity = capacity, nextItem = None, selectedCount = 0, selectedIndex = 0,
      isReverse = False, visible = True, fnComparator = DEFAULT_YX,
      objs = os, notified = []\<rparr>"

text \<open>An item as its owner makes it: a box, a layer, no flag set.\<close>

definition new_item :: "int \<Rightarrow> int \<Rightarrow> int \<Rightarrow> int \<Rightarrow> int \<Rightarrow> item" where
  "new_item ax ay bx by z =
     \<lparr>bounds = \<lparr>x1 = ax, y1 = ay, x2 = bx, y2 = by, cx = (ax + bx) div 2, cy = (ay + by) div 2\<rparr>,
      insertionBounds =
        \<lparr>x1 = ax, y1 = ay, x2 = bx, y2 = by, cx = (ax + bx) div 2, cy = (ay + by) div 2\<rparr>,
      zindex = z, flags = 0, item_selectedIndex = 0\<rparr>"

subsection \<open>Sequences of calls\<close>

fun is_thrown :: "outcome \<Rightarrow> bool" where
  "is_thrown (Returned this) = False"
| "is_thrown (Thrown msg this) = True"

text \<open>
  A sequence of \<open>updateItem\<close> calls, one per item of the list. A caller that catches the
  error goes on with the tree as the failed call left it. The result lists the items whose
  call returned, in call order.
\<close>

fun updateItems :: "item_id list \<Rightarrow> quadtree \<Rightarrow> item_id list \<times> quadtree" where
  "updateItems [] this = ([], this)"
| "updateItems (x # xs) this =
     (case updateItem x this of
        Returned this' \<Rightarrow> (x # fst (updateItems xs this'), snd (updateItems xs this'))
      | Thrown msg this' \<Rightarrow> updateItems xs this')"

text \<open>The update queue holds no item twice, and every item in it is QUEUED.\<close>

definition queue_ok :: "quadtree \<Rightarrow> bool" where
  "queue_ok this \<longleftrightarrow>
     distinct (updateQueue this) \<and>
     list_all (\<lambda>x. has_flag FLAG_QUEUED (objs this x)) (updateQueue this)"

text \<open>
  The order in which a sequence of requests first names each item, after the items of \<open>q\<close>:
  a request for an item already listed adds nothing.
\<close>

fun enqueue_order :: "item_id list \<Rightarrow> item_id list \<Rightarrow> item_id list" where
  "enqueue_order q [] = q"
| "enqueue_order q (x # xs) = enqueue_order (if x \<in> set q then q else q @ [x]) xs"

text \<open>A sequence of \<open>addItem\<close> and \<open>removeItem\<close> calls.\<close>

datatype call = AddItem item_id | RemoveItem item_id

fun run :: "call list \<Rightarrow> quadtree \<Rightarrow> quadtree" where
  "run [] this = this"
| "run (AddItem x # cs) this = run cs (snd (addItem x this))"
| "run (RemoveItem x # cs) this = run cs (snd (removeItem x this))"

text \<open>No \<open>addItem\<close> call of the sequence is for an item that is ATTACHED when it is made.\<close>

fun adds_detached :: "call list \<Rightarrow> quadtree \<Rightarrow> bool" where
  "adds_detached [] this = True"
| "adds_detached (AddItem x # cs) this =
     (\<not> has_flag FLAG_ATTACHED (objs this x) \<and> adds_detached cs (snd (addItem x this)))"
| "adds_detached (RemoveItem x # cs) this = adds_detached cs (snd (removeItem x this))"

text \<open>Every item is in \<open>items\<close> and in \<open>orderedItems\<close> once if it is ATTACHED, and not at all if not.\<close>

definition attached_once :: "quadtree \<Rightarrow> bool" where
  "attached_once this \<longleftrightarrow>
     (\<forall>x. count_list (items this) x = (if has_flag FLAG_ATTACHED (objs this x) then 1 else 0) \<and>
          count_list (orderedItems this) x = (if has_flag FLAG_ATTACHED (objs this x) then 1 else 0))"

text \<open>The comparator is one of the seven that the class supplies.\<close>

fun supplied :: "comparator \<Rightarrow> bool" where
  "supplied (CUSTOM f) = False"
| "supplied c = True"

text \<open>
  The comparator in use decides between \<open>p\<close> and \<open>q\<close>, once they tie on Z and X, by their Y
  coordinates under \<open>yd\<close>: it reads \<open>yd\<close>, the direction flags of the axes it compares
  before Y are unset, and the Y values it compares differ: \<open>y1\<close> for
  \<open>COMPARATOR_DEFAULT_YX\<close> and \<open>COMPARATOR_DEFAULT_XY\<close>, \<open>y2\<close> for \<open>COMPARATOR_Y2\<close>, and
  for \<open>COMPARATOR_Y1\<close> the sums of \<open>y1\<close> and the Z-index as the source computes them,
  which can be equal for different \<open>y1\<close>.
\<close>

definition compares_y :: "quadtree \<Rightarrow> item \<Rightarrow> item \<Rightarrow> bool" where
  "compares_y this p q \<longleftrightarrow>
     (case fnComparator this of
        DEFAULT_YX \<Rightarrow> \<not> zd this \<and> y1 (insertionBounds p) \<noteq> y1 (insertionBounds q)
      | DEFAULT_XY \<Rightarrow>
          \<not> zd this \<and> \<not> xd this \<and> y1 (insertionBounds p) \<noteq> y1 (insertionBounds q)
      | Y2 \<Rightarrow> \<not> zd this \<and> y2 (insertionBounds p) \<noteq> y2 (insertionBounds q)
      | Y1 \<Rightarrow>
          js_add (y1 (insertionBounds p)) (zindex p) \<noteq> js_add (y1 (insertionBounds q)) (zindex q)
      | _ \<Rightarrow> False)"

text \<open>\<open>b\<close> is another value than \<open>a\<close> and stands after the first \<open>a\<close> of the list.\<close>

definition precedes :: "'a list \<Rightarrow> 'a \<Rightarrow> 'a \<Rightarrow> bool" where
  "precedes xs a b \<longleftrightarrow> a \<noteq> b \<and> b \<in> set (dropWhile (\<lambda>v. v \<noteq> a) xs)"

text \<open>
  Two trees over the region from (-100, -100) to (100, 100) with node capacity 4. In
  \<open>tied_tree\<close> every item has the same box and layer and the items 0 and 1 are attached; in
  \<open>sample_tree\<close> the items 0, 1 and 2 have boxes of their own and are attached.
\<close>

definition tied_tree :: quadtree where
  "tied_tree =
     snd (addItem 1 (snd (addItem 0
       (new_QuadTree (- 100) (- 100) 100 100 4 (\<lambda>i. new_item 0 0 10 10 0)))))"

definition sample_objs :: "item_id \<Rightarrow> item" where
  "sample_objs =
     (\<lambda>i. new_item 200 200 210 210 0)
       (0 := new_item 0 0 10 10 0, 1 := new_item 5 5 15 15 0, 2 := new_item 20 (- 30) 30 (- 20) 0)"

definition sample_tree :: quadtree where
  "sample_tree =
     snd (addItem 2 (snd (addItem 1 (snd (addItem 0
       (new_QuadTree (- 100) (- 100) 100 100 4 sample_objs))))))"

text \<open>
  \<open>stranded_tree\<close>: in \<open>sample_tree\<close> everything is selected for a backward traversal, and
  one item is then taken with a forward call. \<open>stale_tree\<close>: in \<open>sample_tree\<close> the box of
  item 2 is selected, nothing is taken, and the traversal is set to backward.
\<close>

definition stranded_tree :: quadtree where
  "stranded_tree =
     snd (getNextSelected (Some False) (snd (selectItems None None (Some True) sample_tree)))"

definition stale_tree :: quadtree where
  "stale_tree =
     setReverse True (snd (selectItems (Some (bounds (sample_objs 2))) None None sample_tree))"

text \<open>\<open>stacked_tree\<close>: two attached items with the same layer and the same X extent, one above the other.\<close>

definition stacked_tree :: quadtree where
  "stacked_tree =
     snd (addItem 1 (snd (addItem 0
       (new_QuadTree (- 100) (- 100) 100 100 4
          (\<lambda>i. if i = 0 then new_item 0 0 10 10 0 else new_item 0 20 10 30 0)))))"

section \<open>Properties\<close>

subsection \<open>Flags\<close>

lemma flags_distinct:
  "FLAG_ATTACHED AND FLAG_SELECTED = 0" "FLAG_ATTACHED AND FLAG_QUEUED = 0"
  "FLAG_SELECTED AND FLAG_ATTACHED = 0" "FLAG_SELECTED AND FLAG_QUEUED = 0"
  "FLAG_QUEUED AND FLAG_ATTACHED = 0" "FLAG_QUEUED AND FLAG_SELECTED = 0"
  "FLAG_ATTACHED \<noteq> 0" "FLAG_SELECTED \<noteq> 0" "FLAG_QUEUED \<noteq> 0"
  by (simp_all add: FLAG_ATTACHED_def FLAG_SELECTED_def FLAG_QUEUED_def)

lemma has_flag_set_same: "f \<noteq> 0 \<Longrightarrow> has_flag f (set_flag f p)"
  by (simp add: has_flag_def set_flag_def word_ao_absorbs)

lemma has_flag_clear_same: "\<not> has_flag f (clear_flag f p)"
  by (simp add: has_flag_def clear_flag_def word_bw_assocs)

lemma has_flag_set_other: "f AND g = 0 \<Longrightarrow> has_flag f (set_flag g p) = has_flag f p"
proof -
  assume a: "f AND g = 0"
  have "(flags p OR g) AND f = (flags p AND f) OR (g AND f)"
    by (rule bit.conj_disj_distrib2)
  also have "g AND f = 0" using a by (simp add: and.commute)
  finally show ?thesis by (simp add: has_flag_def set_flag_def)
qed

lemma has_flag_clear_other: "f AND g = 0 \<Longrightarrow> has_flag f (clear_flag g p) = has_flag f p"
proof -
  assume a: "f AND g = 0"
  have "NOT g AND f = f"
    using a by (simp add: bit_eq_iff bit_and_iff bit_not_iff) metis
  then have "(flags p AND NOT g) AND f = flags p AND f"
    by (simp add: and.assoc)
  then show ?thesis by (simp add: has_flag_def clear_flag_def)
qed

lemmas has_flag_simps =
  has_flag_set_same [OF flags_distinct(7)] has_flag_set_same [OF flags_distinct(8)]
  has_flag_set_same [OF flags_distinct(9)] has_flag_clear_same
  has_flag_set_other [OF flags_distinct(1)] has_flag_set_other [OF flags_distinct(2)]
  has_flag_set_other [OF flags_distinct(3)] has_flag_set_other [OF flags_distinct(4)]
  has_flag_set_other [OF flags_distinct(5)] has_flag_set_other [OF flags_distinct(6)]
  has_flag_clear_other [OF flags_distinct(1)] has_flag_clear_other [OF flags_distinct(2)]
  has_flag_clear_other [OF flags_distinct(3)] has_flag_clear_other [OF flags_distinct(4)]
  has_flag_clear_other [OF flags_distinct(5)] has_flag_clear_other [OF flags_distinct(6)]

lemma flag_fields [simp]:
  "bounds (set_flag f p) = bounds p" "bounds (clear_flag f p) = bounds p"
  "insertionBounds (set_flag f p) = insertionBounds p"
  "insertionBounds (clear_flag f p) = insertionBounds p"
  "zindex (set_flag f p) = zindex p" "zindex (clear_flag f p) = zindex p"
  by (simp_all add: set_flag_def clear_flag_def)

lemma has_flag_new_item [simp]: "\<not> has_flag f (new_item ax ay bx by z)"
  by (simp add: has_flag_def new_item_def)

subsection \<open>The ordered list under insertion\<close>

lemmas comparator_defs =
  COMPARATOR_DEFAULT_YX_def COMPARATOR_DEFAULT_XY_def COMPARATOR_MANHATTAN_def
  COMPARATOR_Y2_def COMPARATOR_Y1_def COMPARATOR_X2_def COMPARATOR_X1_def

lemma isBefore_orderedItems [simp]: "isBefore (this\<lparr>orderedItems := l\<rparr>) = isBefore this"
  by (cases "fnComparator this")
     (simp_all add: isBefore_def fun_eq_iff axes.truncate_def comparator_defs)

lemma isBefore_addItemOrdered [simp]: "isBefore (addItemOrdered v this) = isBefore this"
  by (simp add: addItemOrdered_def)

lemma mset_addItemOrdered_scan [simp]:
  "mset (addItemOrdered_scan this v xs) = add_mset v (mset xs)"
  by (induction xs) simp_all

lemma successively_addItemOrdered_scan:
  assumes "successively (\<lambda>a b. isBefore this a b \<or> \<not> isBefore this b a) xs"
  shows "successively (\<lambda>a b. isBefore this a b \<or> \<not> isBefore this b a)
           (addItemOrdered_scan this v xs)"
  using assms
proof (induction xs)
  case Nil
  then show ?case by simp
next
  case (Cons w ws)
  show ?case
  proof (cases "isBefore this v w")
    case True
    with Cons.prems show ?thesis by simp
  next
    case False
    from Cons.prems
    have rest: "successively (\<lambda>a b. isBefore this a b \<or> \<not> isBefore this b a) ws"
      by (auto simp: successively_Cons)
    show ?thesis
    proof (cases ws)
      case Nil
      with False show ?thesis by simp
    next
      case ws: (Cons u us)
      with False Cons.prems Cons.IH [OF rest] show ?thesis
        by (auto simp: successively_Cons)
    qed
  qed
qed

lemma reorderItems_loop_invariant:
  assumes "successively (\<lambda>a b. isBefore this a b \<or> \<not> isBefore this b a) (orderedItems this)"
  shows "successively (\<lambda>a b. isBefore this a b \<or> \<not> isBefore this b a)
           (orderedItems (reorderItems_loop vs this)) \<and>
         isBefore (reorderItems_loop vs this) = isBefore this \<and>
         mset (orderedItems (reorderItems_loop vs this)) = mset vs + mset (orderedItems this) \<and>
         fnComparator (reorderItems_loop vs this) = fnComparator this"
  using assms
proof (induction vs arbitrary: this)
  case Nil
  then show ?case by simp
next
  case (Cons v vs)
  have "successively
          (\<lambda>a b. isBefore (addItemOrdered v this) a b \<or> \<not> isBefore (addItemOrdered v this) b a)
          (orderedItems (addItemOrdered v this))"
    using successively_addItemOrdered_scan [OF Cons.prems]
    by (simp add: addItemOrdered_def)
  from Cons.IH [OF this] show ?case
    by (simp add: addItemOrdered_def)
qed

subsection \<open>Evaluation of the sample trees\<close>

lemmas tree_defs =
  addItem_def QuadTreeNode_addItem_def new_QuadTree_def new_item_def rect_contains_def
  List_push_def addItemOrdered_def isBefore_def comparator_defs set_flag_def clear_flag_def
  has_flag_def FLAG_ATTACHED_def FLAG_SELECTED_def FLAG_QUEUED_def js_add_def
  round_to_double_def

lemma tied_tree_orderedItems: "orderedItems tied_tree = [0, 1]"
  by (simp add: tied_tree_def tree_defs)

lemma sample_tree_orderedItems: "orderedItems sample_tree = [2, 0, 1]"
  by (simp add: sample_tree_def sample_objs_def tree_defs)

subsection \<open>Reordering\<close>

text \<open>
  C3, as amended. After \<open>setComparator(c)\<close> and \<open>reorderItems()\<close>, for any comparator \<open>c\<close>,
  the comparator in use is \<open>c\<close>, \<open>orderedItems\<close> holds the same items as before, each as often
  as before, and for every adjacent pair \<open>a\<close>, \<open>b\<close> of the walk from head to tail (\<open>a\<close>
  immediately before \<open>b\<close>) either \<open>isBefore(a, b)\<close> holds or \<open>isBefore(b, a)\<close> does not: no
  item stands immediately before one that is before it without being before that one itself.
\<close>

theorem reorderItems_adjacent_pairs:
  assumes "this' = reorderItems (snd (setComparator c this))"
  shows "fnComparator this' = c \<and>
         successively (\<lambda>a b. isBefore this' a b \<or> \<not> isBefore this' b a) (orderedItems this') \<and>
         mset (orderedItems this') = mset (orderedItems this)"
proof -
  let ?s = "(snd (setComparator c this))\<lparr>orderedItems := []\<rparr>"
  have c: "fnComparator ?s = c" by (simp add: setComparator_def)
  have o: "orderedItems (snd (setComparator c this)) = orderedItems this"
    by (simp add: setComparator_def)
  have "successively (\<lambda>a b. isBefore ?s a b \<or> \<not> isBefore ?s b a) (orderedItems ?s)"
    by simp
  from reorderItems_loop_invariant [OF this, of "orderedItems this"] c o assms
  show ?thesis by (simp add: reorderItems_def Let_def)
qed

text \<open>
  The theorem at \<open>sample_tree\<close> and the Manhattan comparator: the three items come out in
  the order of the sums of their centre coordinates.
\<close>

theorem reorderItems_adjacent_pairs_witness:
  "orderedItems (reorderItems (snd (setComparator MANHATTAN sample_tree))) = [2, 0, 1] \<and>
   fnComparator (reorderItems (snd (setComparator MANHATTAN sample_tree))) = MANHATTAN \<and>
   mset (orderedItems (reorderItems (snd (setComparator MANHATTAN sample_tree)))) =
     mset (orderedItems sample_tree)"
  using reorderItems_adjacent_pairs [OF refl, of MANHATTAN sample_tree]
  by (simp add: reorderItems_def setComparator_def sample_tree_def sample_objs_def tree_defs)

text \<open>
  C3 as stated fails on ties. Two attached items with the same box and layer: after
  \<open>setComparator\<close> and \<open>reorderItems\<close> the list holds both, and \<open>isBefore\<close> does not hold
  for the pair.
\<close>

theorem reorderItems_tied_counterexample:
  "\<not> successively (isBefore (reorderItems (snd (setComparator DEFAULT_XY tied_tree))))
       (orderedItems (reorderItems (snd (setComparator DEFAULT_XY tied_tree))))"
  by (simp add: reorderItems_def setComparator_def tied_tree_def tree_defs)

subsection \<open>What adding and removing leave alone\<close>

lemma removeItem_frame [simp]:
  "updateQueue (snd (removeItem x this)) = updateQueue this"
  "notified (snd (removeItem x this)) = notified this"
  "has_flag FLAG_QUEUED (objs (snd (removeItem x this)) y) = has_flag FLAG_QUEUED (objs this y)"
  "has_flag FLAG_SELECTED (objs (snd (removeItem x this)) y) = has_flag FLAG_SELECTED (objs this y)"
  "root (snd (removeItem x this)) = root this"
  "bounds (objs (snd (removeItem x this)) y) = bounds (objs this y)"
  by (simp_all add: removeItem_def QuadTreeNode_removeItem_def has_flag_simps)

lemma addItem_frame [simp]:
  "updateQueue (snd (addItem x this)) = updateQueue this"
  "notified (snd (addItem x this)) = notified this"
  "has_flag FLAG_QUEUED (objs (snd (addItem x this)) y) = has_flag FLAG_QUEUED (objs this y)"
  "has_flag FLAG_SELECTED (objs (snd (addItem x this)) y) = has_flag FLAG_SELECTED (objs this y)"
  "root (snd (addItem x this)) = root this"
  "bounds (objs (snd (addItem x this)) y) = bounds (objs this y)"
  by (simp_all add: addItem_def QuadTreeNode_addItem_def addItemOrdered_def has_flag_simps)

lemma removeItem_detaches: "\<not> has_flag FLAG_ATTACHED (objs (snd (removeItem x this)) x)"
  by (simp add: removeItem_def QuadTreeNode_removeItem_def has_flag_simps)

lemma set_addItemOrdered_scan [simp]: "set (addItemOrdered_scan this v xs) = insert v (set xs)"
  by (induction xs) auto

lemma addItem_success:
  assumes "fst (addItem x this)"
  shows "x \<in> set (orderedItems (snd (addItem x this)))"
    and "x \<in> set (items (snd (addItem x this)))"
    and "has_flag FLAG_ATTACHED (objs (snd (addItem x this)) x)"
  using assms
  by (simp_all add: addItem_def QuadTreeNode_addItem_def addItemOrdered_def List_push_def
      has_flag_simps split: if_splits)

lemmas sample_defs = sample_tree_def sample_objs_def tree_defs

subsection \<open>Removing twice\<close>

text \<open>
  C5, as amended. \<open>removeItem\<close> on an item that is not ATTACHED returns true and leaves the
  tree and every item as they are; and of two consecutive calls \<open>removeItem(x)\<close>, whatever
  the tree and the item, the second is such a call: both return, the second returns true
  and changes nothing.
\<close>

theorem removeItem_twice:
  "(\<not> has_flag FLAG_ATTACHED (objs this x) \<longrightarrow> removeItem x this = (True, this)) \<and>
   removeItem x (snd (removeItem x this)) = (True, snd (removeItem x this))"
  using removeItem_detaches [of x this] by (simp add: removeItem_def)

text \<open>
  The theorem at \<open>sample_tree\<close> after a first \<open>removeItem\<close> of its attached item 0: the
  item is not ATTACHED there, and the second call returns true and changes nothing.
\<close>

theorem removeItem_twice_witness:
  "orderedItems (snd (removeItem 0 sample_tree)) = [2, 1] \<and>
   \<not> has_flag FLAG_ATTACHED (objs (snd (removeItem 0 sample_tree)) 0) \<and>
   removeItem 0 (snd (removeItem 0 sample_tree)) = (True, snd (removeItem 0 sample_tree))"
proof -
  have "orderedItems (snd (removeItem 0 sample_tree)) = [2, 1]"
    by (simp add: removeItem_def QuadTreeNode_removeItem_def List_remove_def sample_defs)
  moreover have "\<not> has_flag FLAG_ATTACHED (objs (snd (removeItem 0 sample_tree)) 0)"
    by (rule removeItem_detaches)
  ultimately show ?thesis
    using removeItem_twice [of "snd (removeItem 0 sample_tree)" 0] by simp
qed

text \<open>
  C5 as stated has the second call return false; it returns true.
\<close>

theorem removeItem_twice_counterexample:
  "fst (removeItem 0 (snd (removeItem 0 sample_tree))) \<noteq> False"
  using removeItem_detaches [of 0 sample_tree] by (simp add: removeItem_def)

subsection \<open>A failed insertion\<close>

text \<open>
  C9. When the insertion into the root node fails, \<open>addItem\<close> returns false and the tree
  and all items, their bounds and flags included, are as before the call; in particular
  the item is not added to \<open>orderedItems\<close>.
\<close>

theorem addItem_failure_unchanged:
  assumes "\<not> fst (QuadTreeNode_addItem x (nodeCapacity this) this)"
  shows "addItem x this = (False, this)"
  using assms by (simp add: addItem_def QuadTreeNode_addItem_def split: if_splits)

text \<open>The theorem at \<open>sample_tree\<close> and item 3, whose box lies outside the region.\<close>

theorem addItem_failure_unchanged_witness:
  "\<not> fst (QuadTreeNode_addItem 3 (nodeCapacity sample_tree) sample_tree) \<and>
   addItem 3 sample_tree = (False, sample_tree)"
proof -
  have h: "\<not> fst (QuadTreeNode_addItem 3 (nodeCapacity sample_tree) sample_tree)"
    by (simp add: QuadTreeNode_addItem_def sample_defs)
  show ?thesis using h addItem_failure_unchanged [OF h] by simp
qed

subsection \<open>Updating an item\<close>

text \<open>
  C7. \<open>updateItem\<close> removes the item and adds it again: the lists of the tree after the
  call are those of \<open>addItem\<close> after \<open>removeItem\<close>. It throws exactly when that \<open>addItem\<close>
  returns false, and then with the message of the source; when it returns, the item is in
  \<open>orderedItems\<close> and in \<open>items\<close> and is ATTACHED.
\<close>

theorem updateItem_throws_iff:
  "(is_thrown (updateItem x this) \<longleftrightarrow> \<not> fst (addItem x (snd (removeItem x this)))) \<and>
   (is_thrown (updateItem x this) \<longleftrightarrow>
      updateItem x this =
        Thrown ''Unable to re-attach item to quadtree.'' (snd (addItem x (snd (removeItem x this))))) \<and>
   orderedItems (tree_of (updateItem x this)) =
     orderedItems (snd (addItem x (snd (removeItem x this)))) \<and>
   items (tree_of (updateItem x this)) = items (snd (addItem x (snd (removeItem x this)))) \<and>
   (\<not> is_thrown (updateItem x this) \<longrightarrow>
      x \<in> set (orderedItems (tree_of (updateItem x this))) \<and>
      x \<in> set (items (tree_of (updateItem x this))) \<and>
      has_flag FLAG_ATTACHED (objs (tree_of (updateItem x this)) x))"
  using addItem_success [of x "snd (removeItem x this)"]
  by (cases "addItem x (snd (removeItem x this))")
     (auto simp: updateItem_def Let_def has_flag_simps)

text \<open>The theorem at \<open>sample_tree\<close> and its attached item 0, which is within the region.\<close>

theorem updateItem_throws_iff_witness:
  "\<not> is_thrown (updateItem 0 sample_tree) \<and>
   orderedItems (tree_of (updateItem 0 sample_tree)) = [2, 0, 1] \<and>
   updateQueue (tree_of (updateItem 0 sample_tree)) = [0] \<and>
   has_flag FLAG_ATTACHED (objs (tree_of (updateItem 0 sample_tree)) 0)"
  using updateItem_throws_iff [of 0 sample_tree]
  by (simp add: updateItem_def removeItem_def QuadTreeNode_removeItem_def List_remove_def
      Let_def sample_defs)

subsection \<open>The update queue\<close>

lemma updateItem_queue:
  "updateQueue (tree_of (updateItem x this)) =
     (if is_thrown (updateItem x this) \<or> has_flag FLAG_QUEUED (objs this x) then updateQueue this
      else updateQueue this @ [x])"
  "notified (tree_of (updateItem x this)) = notified this"
  "has_flag FLAG_QUEUED (objs (tree_of (updateItem x this)) y) \<longleftrightarrow>
     has_flag FLAG_QUEUED (objs this y) \<or> (y = x \<and> \<not> is_thrown (updateItem x this))"
proof -
  obtain r t where a: "addItem x (snd (removeItem x this)) = (r, t)"
    by (cases "addItem x (snd (removeItem x this))")
  have q: "updateQueue t = updateQueue this" "notified t = notified this"
    "\<And>z. has_flag FLAG_QUEUED (objs t z) = has_flag FLAG_QUEUED (objs this z)"
    using addItem_frame(1-3) [of x "snd (removeItem x this)"] a by simp_all
  show "updateQueue (tree_of (updateItem x this)) =
     (if is_thrown (updateItem x this) \<or> has_flag FLAG_QUEUED (objs this x) then updateQueue this
      else updateQueue this @ [x])"
    using a q by (simp add: updateItem_def Let_def List_push_def)
  show "notified (tree_of (updateItem x this)) = notified this"
    using a q by (simp add: updateItem_def Let_def)
  show "has_flag FLAG_QUEUED (objs (tree_of (updateItem x this)) y) \<longleftrightarrow>
     has_flag FLAG_QUEUED (objs this y) \<or> (y = x \<and> \<not> is_thrown (updateItem x this))"
    using a q by (simp add: updateItem_def Let_def has_flag_simps)
qed

lemma queue_ok_kept:
  "queue_ok (new_QuadTree ax ay bx by capacity os)"
  "queue_ok this \<Longrightarrow> queue_ok (snd (addItem x this))"
  "queue_ok this \<Longrightarrow> queue_ok (snd (removeItem x this))"
  by (simp_all add: queue_ok_def new_QuadTree_def)

lemma queue_ok_updateItem: "queue_ok this \<Longrightarrow> queue_ok (tree_of (updateItem x this))"
  by (auto simp: queue_ok_def updateItem_queue list_all_iff)

lemma updateItems_Cons:
  "snd (updateItems (x # xs) this) = snd (updateItems xs (tree_of (updateItem x this)))"
  "fst (updateItems (x # xs) this) =
     (if is_thrown (updateItem x this) then fst (updateItems xs (tree_of (updateItem x this)))
      else x # fst (updateItems xs (tree_of (updateItem x this))))"
  by (cases "updateItem x this"; simp)+

lemma queue_ok_updateItems: "queue_ok this \<Longrightarrow> queue_ok (snd (updateItems xs this))"
proof (induction xs arbitrary: this)
  case Nil
  then show ?case by simp
next
  case (Cons x xs)
  from Cons.IH [OF queue_ok_updateItem [OF Cons.prems]] show ?case
    by (simp only: updateItems_Cons)
qed

lemma queued_updateItems:
  "has_flag FLAG_QUEUED (objs this x) \<Longrightarrow> has_flag FLAG_QUEUED (objs (snd (updateItems xs this)) x)"
proof (induction xs arbitrary: this)
  case Nil
  then show ?case by simp
next
  case (Cons y ys)
  have "has_flag FLAG_QUEUED (objs (tree_of (updateItem y this)) x)"
    using Cons.prems by (simp add: updateItem_queue)
  from Cons.IH [OF this] show ?case by (simp only: updateItems_Cons)
qed

lemma distinct_count_le_1: "distinct xs \<Longrightarrow> count_list xs x \<le> 1"
  by (induction xs) auto

text \<open>
  C8. In a tree whose update queue holds no item twice and only QUEUED items (as in a new
  tree, and as \<open>addItem\<close>, \<open>removeItem\<close> and \<open>updateItem\<close> keep it): a call \<open>updateItem(x)\<close> that returns
  for an item not QUEUED puts it at the bottom of the queue and sets QUEUED; a call for an
  item that is QUEUED leaves the queue as it is, and the item stays QUEUED over any further
  \<open>updateItem\<close> calls; so after any sequence of \<open>updateItem\<close> calls the queue holds each item
  at most once.
\<close>

theorem updateItem_enqueues_once:
  assumes "queue_ok this"
  shows "(\<not> has_flag FLAG_QUEUED (objs this x) \<and> \<not> is_thrown (updateItem x this) \<longrightarrow>
            updateQueue (tree_of (updateItem x this)) = updateQueue this @ [x] \<and>
            has_flag FLAG_QUEUED (objs (tree_of (updateItem x this)) x)) \<and>
         (has_flag FLAG_QUEUED (objs this x) \<longrightarrow>
            updateQueue (tree_of (updateItem x this)) = updateQueue this \<and>
            has_flag FLAG_QUEUED (objs (snd (updateItems xs this)) x)) \<and>
         queue_ok (snd (updateItems xs this)) \<and>
         count_list (updateQueue (snd (updateItems xs this))) x \<le> 1"
proof -
  have ok: "queue_ok (snd (updateItems xs this))"
    using assms by (rule queue_ok_updateItems)
  then have "count_list (updateQueue (snd (updateItems xs this))) x \<le> 1"
    using distinct_count_le_1 [of "updateQueue (snd (updateItems xs this))" x]
    by (simp add: queue_ok_def)
  with ok show ?thesis
    by (simp add: updateItem_queue queued_updateItems)
qed

text \<open>The theorem at \<open>sample_tree\<close>: item 1 is updated, then item 0, then item 1 again.\<close>

theorem updateItem_enqueues_once_witness:
  "queue_ok sample_tree \<and>
   \<not> has_flag FLAG_QUEUED (objs sample_tree 1) \<and> \<not> is_thrown (updateItem 1 sample_tree) \<and>
   updateQueue (tree_of (updateItem 1 sample_tree)) = [1] \<and>
   updateQueue (snd (updateItems [1, 0, 1] sample_tree)) = [1, 0] \<and>
   count_list (updateQueue (snd (updateItems [1, 0, 1] sample_tree))) 1 = 1"
proof -
  have h: "queue_ok sample_tree"
    by (simp add: queue_ok_def sample_defs)
  show ?thesis
    using h updateItem_enqueues_once [OF h, of 1 "[1, 0, 1]"]
    by (simp add: updateItem_def removeItem_def QuadTreeNode_removeItem_def List_remove_def
      Let_def sample_defs)
qed

lemma update_Nil: "updateQueue this = [] \<Longrightarrow> update this = this"
  by (subst update.simps) (simp add: List_pop_def)

lemma update_Cons:
  "updateQueue this = i # q \<Longrightarrow>
   update this = update (notifyPosition i
     (this\<lparr>updateQueue := q, objs := (objs this)(i := clear_flag FLAG_QUEUED (objs this i))\<rparr>))"
  by (subst update.simps) (simp add: List_pop_def)

lemma update_drains:
  "updateQueue this = q \<Longrightarrow>
   updateQueue (update this) = [] \<and>
   notified (update this) = notified this @ q \<and>
   (\<forall>x. has_flag FLAG_QUEUED (objs (update this) x) \<longleftrightarrow>
        has_flag FLAG_QUEUED (objs this x) \<and> x \<notin> set q)"
proof (induction q arbitrary: this)
  case Nil
  then show ?case by (simp add: update_Nil)
next
  case (Cons i q)
  let ?t = "notifyPosition i
     (this\<lparr>updateQueue := q, objs := (objs this)(i := clear_flag FLAG_QUEUED (objs this i))\<rparr>)"
  have "updateQueue ?t = q" by (simp add: notifyPosition_def)
  from Cons.IH [OF this] update_Cons [OF Cons.prems] show ?case
    by (auto simp: notifyPosition_def has_flag_simps)
qed

lemma distinct_count_1: "distinct xs \<Longrightarrow> x \<in> set xs \<Longrightarrow> count_list xs x = 1"
  by (induction xs) auto

lemma set_enqueue_order [simp]: "set (enqueue_order q xs) = set q \<union> set xs"
  by (induction xs arbitrary: q) auto

lemma distinct_enqueue_order [simp]: "distinct q \<Longrightarrow> distinct (enqueue_order q xs)"
  by (induction xs arbitrary: q) auto

lemma updateItems_queue:
  assumes "\<forall>x. has_flag FLAG_QUEUED (objs this x) \<longleftrightarrow> x \<in> set (updateQueue this)"
  shows "updateQueue (snd (updateItems xs this)) =
           enqueue_order (updateQueue this) (fst (updateItems xs this)) \<and>
         notified (snd (updateItems xs this)) = notified this \<and>
         (\<forall>x. has_flag FLAG_QUEUED (objs (snd (updateItems xs this)) x) \<longleftrightarrow>
              x \<in> set (updateQueue (snd (updateItems xs this))))"
  using assms
proof (induction xs arbitrary: this)
  case Nil
  then show ?case by simp
next
  case (Cons x xs)
  let ?t = "tree_of (updateItem x this)"
  have inv: "\<forall>y. has_flag FLAG_QUEUED (objs ?t y) \<longleftrightarrow> y \<in> set (updateQueue ?t)"
    using Cons.prems by (auto simp: updateItem_queue)
  from Cons.IH [OF inv] Cons.prems show ?case
    by (simp add: updateItems_Cons updateItem_queue del: updateItems.simps)
qed

text \<open>
  C6. From a tree with an empty update queue and no item QUEUED, after any sequence of
  \<open>updateItem\<close> calls, \<open>update()\<close> calls \<open>notifyPosition\<close> on the items whose calls
  returned, in the order in which those calls first named each of them, once per item; it
  leaves the queue empty and no item QUEUED. For any tree, \<open>update()\<close> notifies the items
  of the queue from its top to its bottom.
\<close>

theorem update_first_in_first_out:
  assumes "updateQueue this = []" and "\<forall>x. \<not> has_flag FLAG_QUEUED (objs this x)"
  shows "notified (update (snd (updateItems xs this))) =
           notified this @ enqueue_order [] (fst (updateItems xs this)) \<and>
         updateQueue (update (snd (updateItems xs this))) = [] \<and>
         (\<forall>x. \<not> has_flag FLAG_QUEUED (objs (update (snd (updateItems xs this))) x)) \<and>
         (\<forall>x \<in> set (fst (updateItems xs this)).
            count_list (enqueue_order [] (fst (updateItems xs this))) x = 1) \<and>
         notified (update that) = notified that @ updateQueue that"
proof -
  have inv: "\<forall>x. has_flag FLAG_QUEUED (objs this x) \<longleftrightarrow> x \<in> set (updateQueue this)"
    using assms by simp
  have c: "\<forall>x \<in> set (fst (updateItems xs this)).
            count_list (enqueue_order [] (fst (updateItems xs this))) x = 1"
    by (simp add: distinct_count_1)
  from updateItems_queue [OF inv, of xs] assms(1)
    update_drains [OF refl, of "snd (updateItems xs this)"] update_drains [OF refl, of that] c
  show ?thesis by simp
qed

text \<open>
  The theorem at \<open>sample_tree\<close>: items 1, 3, 0 and 1 are updated; the call for item 3,
  whose box is outside the region, throws.
\<close>

theorem update_first_in_first_out_witness:
  "updateQueue sample_tree = [] \<and> (\<forall>x. \<not> has_flag FLAG_QUEUED (objs sample_tree x)) \<and>
   fst (updateItems [1, 3, 0, 1] sample_tree) = [1, 0, 1] \<and>
   notified (update (snd (updateItems [1, 3, 0, 1] sample_tree))) = [1, 0]"
proof -
  have h1: "updateQueue sample_tree = []"
    by (simp add: sample_defs)
  have h2: "\<forall>x. \<not> has_flag FLAG_QUEUED (objs sample_tree x)"
    by (simp add: sample_defs)
  have h3: "notified sample_tree = []"
    by (simp add: sample_defs)
  have "fst (updateItems [1, 3, 0, 1] sample_tree) = [1, 0, 1]"
    by (simp add: updateItem_def removeItem_def QuadTreeNode_removeItem_def List_remove_def
      Let_def sample_defs)
  with h1 h2 h3 update_first_in_first_out [OF h1 h2, of "[1, 3, 0, 1]" sample_tree]
  show ?thesis by simp
qed


subsection \<open>The selection cursor\<close>

lemma ahead_step:
  assumes "i < length xs"
  shows "ahead b xs (Some i) = xs ! i # ahead b xs (if b then List_prev xs i else List_next xs i)"
proof (cases b)
  case True
  have "rev (take (Suc i) xs) = xs ! i # rev (take i xs)"
    using assms by (simp add: take_Suc_conv_app_nth)
  moreover have "ahead True xs (List_prev xs i) = rev (take i xs)"
    using assms by (cases i) (simp_all add: ahead_def List_prev_def)
  ultimately show ?thesis using assms True by (simp add: ahead_def)
next
  case False
  have "drop i xs = xs ! i # drop (Suc i) xs"
    using assms by (simp add: Cons_nth_drop_Suc)
  moreover have "ahead False xs (List_next xs i) = drop (Suc i) xs"
    by (simp add: ahead_def List_next_def)
  ultimately show ?thesis using assms False by (simp add: ahead_def)
qed

lemma ahead_None [simp]: "ahead b xs None = []"
  by (simp add: ahead_def)

lemma ahead_skip:
  "ahead b (orderedItems this) (getNextSelected_skip b this c) =
     dropWhile (\<lambda>v. \<not> has_flag FLAG_SELECTED (objs this v)) (ahead b (orderedItems this) c)"
proof (induction b this c rule: getNextSelected_skip.induct)
  case (1 b this)
  then show ?case by simp
next
  case (2 b this i)
  show ?case
  proof (cases "length (orderedItems this) \<le> i")
    case True
    then show ?thesis by (simp add: ahead_def)
  next
    case False
    then have i: "i < length (orderedItems this)" by simp
    show ?thesis
    proof (cases "has_flag FLAG_SELECTED (objs this (orderedItems this ! i))")
      case True
      with i show ?thesis by (simp add: ahead_step)
    next
      case sel: False
      with i 2 [OF False sel] show ?thesis
        by (simp add: ahead_step [OF i])
    qed
  qed
qed

lemma skip_Some:
  "getNextSelected_skip b this c = Some j \<Longrightarrow>
   j < length (orderedItems this) \<and> has_flag FLAG_SELECTED (objs this (orderedItems this ! j))"
  by (induction b this c rule: getNextSelected_skip.induct) (auto split: if_splits)

lemma skip_None_iff:
  "getNextSelected_skip b this c = None \<longleftrightarrow>
   list_all (\<lambda>v. \<not> has_flag FLAG_SELECTED (objs this v)) (ahead b (orderedItems this) c)"
proof
  assume "getNextSelected_skip b this c = None"
  with ahead_skip [of b this c]
  have "dropWhile (\<lambda>v. \<not> has_flag FLAG_SELECTED (objs this v)) (ahead b (orderedItems this) c) = []"
    by simp
  then show
    "list_all (\<lambda>v. \<not> has_flag FLAG_SELECTED (objs this v)) (ahead b (orderedItems this) c)"
    by (simp add: list_all_iff dropWhile_eq_Nil_conv)
next
  assume a: "list_all (\<lambda>v. \<not> has_flag FLAG_SELECTED (objs this v)) (ahead b (orderedItems this) c)"
  show "getNextSelected_skip b this c = None"
  proof (cases "getNextSelected_skip b this c")
    case None
    then show ?thesis .
  next
    case (Some j)
    from skip_Some [OF Some] ahead_skip [of b this c] a Some show ?thesis
      by (simp add: ahead_step list_all_iff dropWhile_eq_Nil_conv [THEN iffD2])
  qed
qed

lemma getNextSelected_nothing_ahead:
  assumes "list_all (\<lambda>v. \<not> has_flag FLAG_SELECTED (objs this v)) (traversal isReverse' this)"
  shows "getNextSelected isReverse' this = (None, this\<lparr>nextItem := None\<rparr>)"
  using assms skip_None_iff [of "case isReverse' of None \<Rightarrow> isReverse this | Some b \<Rightarrow> b" this "nextItem this"]
  by (simp add: getNextSelected_def traversal_def Let_def)

text \<open>
  C10. When no item that the traversal still has before it (the node of the cursor and
  those beyond it in the direction of the call) is SELECTED, and in particular when the
  cursor is \<open>null\<close>, \<open>getNextSelected\<close> returns \<open>null\<close> and changes nothing but the cursor,
  which becomes \<open>null\<close>: \<open>selectedCount\<close>, \<open>selectedIndex\<close> and the flags of all items are as
  before. \<open>selectedCount\<close> can then stay positive, as in the witness.
\<close>

theorem getNextSelected_exhausted:
  assumes "list_all (\<lambda>v. \<not> has_flag FLAG_SELECTED (objs this v)) (traversal isReverse' this)"
  shows "getNextSelected isReverse' this = (None, this\<lparr>nextItem := None\<rparr>)"
  using assms by (rule getNextSelected_nothing_ahead)

lemmas select_defs =
  selectItems_def QuadTreeNode_selectItems_def selects_def rect_intersects_def
  getNextSelected_def List_top_def List_bottom_def List_next_def List_prev_def Let_def
  setReverse_def

lemma stranded_tree_eval:
  "nextItem stranded_tree = None" "selectedCount stranded_tree = 2"
  "selectedIndex stranded_tree = 1" "orderedItems stranded_tree = [2, 0, 1]"
  "has_flag FLAG_SELECTED (objs stranded_tree 2)"
  "has_flag FLAG_SELECTED (objs stranded_tree 0)"
  by (simp_all add: stranded_tree_def select_defs sample_defs)

text \<open>
  The theorem at \<open>stranded_tree\<close>: the cursor has run off the bottom of the list while
  the items 2 and 0 are still SELECTED; the call returns \<open>null\<close> and \<open>selectedCount\<close> stays 2.
\<close>

theorem getNextSelected_exhausted_witness:
  "list_all (\<lambda>v. \<not> has_flag FLAG_SELECTED (objs stranded_tree v))
     (traversal (Some False) stranded_tree) \<and>
   fst (getNextSelected (Some False) stranded_tree) = None \<and>
   selectedCount (snd (getNextSelected (Some False) stranded_tree)) = 2 \<and>
   has_flag FLAG_SELECTED (objs (snd (getNextSelected (Some False) stranded_tree)) 0)"
proof -
  have h: "list_all (\<lambda>v. \<not> has_flag FLAG_SELECTED (objs stranded_tree v))
     (traversal (Some False) stranded_tree)"
    by (simp add: traversal_def stranded_tree_eval)
  show ?thesis
    using h getNextSelected_exhausted [OF h] by (simp add: stranded_tree_eval)
qed


subsection \<open>Selecting and draining\<close>

lemma selectItems_loop_frame [simp]:
  "orderedItems (QuadTreeNode_selectItems_loop rect flt vs this) = orderedItems this"
  "items (QuadTreeNode_selectItems_loop rect flt vs this) = items this"
  "isReverse (QuadTreeNode_selectItems_loop rect flt vs this) = isReverse this"
  by (induction vs arbitrary: this) simp_all

lemma selectItems_loop_selected:
  "has_flag FLAG_SELECTED (objs (QuadTreeNode_selectItems_loop rect flt vs this) v) \<longleftrightarrow>
     has_flag FLAG_SELECTED (objs this v) \<or> (v \<in> set vs \<and> selects rect flt (objs this v))"
proof (induction vs arbitrary: this)
  case Nil
  then show ?case by simp
next
  case (Cons w ws)
  show ?case
  proof (cases "selects rect flt (objs this w)")
    case True
    then show ?thesis
      by (cases "w = v") (simp_all add: Cons.IH has_flag_simps)
  next
    case False
    then show ?thesis
      by (cases "w = v") (auto simp: Cons.IH)
  qed
qed

lemma traversal_selectItems:
  "traversal None (snd (selectItems rect flt None this)) =
     (if isReverse this then rev (orderedItems this) else orderedItems this)"
  by (cases "orderedItems this" rule: rev_cases)
     (simp_all add: traversal_def selectItems_def Let_def QuadTreeNode_selectItems_def
        ahead_def List_top_def List_bottom_def)

lemma selected_selectItems:
  "has_flag FLAG_SELECTED (objs (snd (selectItems rect flt r this)) v) \<longleftrightarrow>
     has_flag FLAG_SELECTED (objs this v) \<or> (v \<in> set (items this) \<and> selects rect flt (objs this v))"
  by (simp add: selectItems_def Let_def QuadTreeNode_selectItems_def selectItems_loop_selected)

lemma has_flag_selectedIndex: "has_flag f (p\<lparr>item_selectedIndex := n\<rparr>) = has_flag f p"
  by (simp add: has_flag_def)

lemma getNextSelected_step:
  assumes "dropWhile (\<lambda>w. \<not> has_flag FLAG_SELECTED (objs this w)) (traversal None this) = v # rest"
  shows "fst (getNextSelected None this) = Some v"
    and "traversal None (snd (getNextSelected None this)) = rest"
    and "has_flag FLAG_SELECTED (objs (snd (getNextSelected None this)) w) \<longleftrightarrow>
           has_flag FLAG_SELECTED (objs this w) \<and> w \<noteq> v"
proof -
  let ?b = "isReverse this"
  let ?xs = "orderedItems this"
  from assms ahead_skip [of ?b this "nextItem this"]
  have a: "ahead ?b ?xs (getNextSelected_skip ?b this (nextItem this)) = v # rest"
    by (simp add: traversal_def)
  then obtain j where j: "getNextSelected_skip ?b this (nextItem this) = Some j"
    by (cases "getNextSelected_skip ?b this (nextItem this)") simp_all
  from skip_Some [OF j] have jl: "j < length ?xs" by simp
  from a j ahead_step [OF jl, of ?b]
  have v: "?xs ! j = v"
    and r: "ahead ?b ?xs (if ?b then List_prev ?xs j else List_next ?xs j) = rest"
    by simp_all
  show "fst (getNextSelected None this) = Some v"
    using j v by (simp add: getNextSelected_def Let_def)
  show "traversal None (snd (getNextSelected None this)) = rest"
    using j v r by (cases "isReverse this") (simp_all add: getNextSelected_def Let_def traversal_def)
  show "has_flag FLAG_SELECTED (objs (snd (getNextSelected None this)) w) \<longleftrightarrow>
           has_flag FLAG_SELECTED (objs this w) \<and> w \<noteq> v"
    using j v by (simp add: getNextSelected_def Let_def has_flag_simps has_flag_selectedIndex)
qed


lemma drain_filter:
  assumes "distinct (traversal None this)"
  shows "map_option fst (drain this) =
           Some (filter (\<lambda>v. has_flag FLAG_SELECTED (objs this v)) (traversal None this))"
  using assms
proof (induction "length (traversal None this)" arbitrary: this rule: less_induct)
  case less
  let ?sel = "\<lambda>v. has_flag FLAG_SELECTED (objs this v)"
  let ?A = "traversal None this"
  show ?case
  proof (cases "dropWhile (\<lambda>w. \<not> ?sel w) ?A")
    case Nil
    then have all: "list_all (\<lambda>v. \<not> ?sel v) ?A"
      by (simp add: list_all_iff dropWhile_eq_Nil_conv)
    then have "filter ?sel ?A = []"
      by (simp add: list_all_iff filter_empty_conv)
    with getNextSelected_nothing_ahead [OF all] show ?thesis
      by (subst drain.simps) simp
  next
    case (Cons v rest)
    let ?t = "snd (getNextSelected None this)"
    note st = getNextSelected_step [OF Cons]
    have A: "?A = takeWhile (\<lambda>w. \<not> ?sel w) ?A @ v # rest"
      using Cons takeWhile_dropWhile_id [of "\<lambda>w. \<not> ?sel w" ?A] by simp
    have v: "?sel v"
      using Cons hd_dropWhile [of "\<lambda>w. \<not> ?sel w" ?A] by simp
    have pre: "filter ?sel (takeWhile (\<lambda>w. \<not> ?sel w) ?A) = []"
      by (auto simp: filter_empty_conv dest: set_takeWhileD)
    have d: "distinct rest" "v \<notin> set rest"
      using less.prems by (subst (asm) A, simp)+
    have len: "length (traversal None ?t) < length ?A"
      using arg_cong [OF A, of length] by (simp add: st(2))
    have "map_option fst (drain ?t) =
            Some (filter (\<lambda>w. has_flag FLAG_SELECTED (objs ?t w)) (traversal None ?t))"
      using less.hyps [OF len] d(1) by (simp add: st(2))
    also have "filter (\<lambda>w. has_flag FLAG_SELECTED (objs ?t w)) (traversal None ?t) = filter ?sel rest"
      using d(2) by (auto simp: st(2,3) intro: filter_cong)
    finally have rec: "map_option fst (drain ?t) = Some (filter ?sel rest)" .
    have "filter ?sel ?A = v # filter ?sel rest"
      by (subst A) (simp add: pre v)
    moreover have "map_option fst (drain this) = Some (v # filter ?sel rest)"
      using st(1) rec
      by (subst drain.simps) (cases "getNextSelected None this"; cases "drain ?t"; auto)
    ultimately show ?thesis by simp
  qed
qed


text \<open>
  C1, as amended. In a tree whose \<open>orderedItems\<close> holds each item once and holds the same
  items as \<open>items\<close> (the attached ones), and in which no item of the list is SELECTED
  (any earlier selection has been drained): \<open>selectItems(R, filter)\<close> followed by calls of
  \<open>getNextSelected()\<close> until it returns \<open>null\<close> ends, and yields exactly the attached items
  whose bounds intersect \<open>R\<close> and that pass the filter, each once, in the order in which
  \<open>orderedItems\<close> holds them, and in the opposite order when the tree's \<open>isReverse\<close> is
  set. So every order \<open>P\<close> between earlier and later items that holds along \<open>orderedItems\<close>
  holds along the items yielded by a forward traversal.
\<close>

theorem selectItems_drain:
  assumes "distinct (orderedItems this)"
    and "set (orderedItems this) = set (items this)"
    and "list_all (\<lambda>v. \<not> has_flag FLAG_SELECTED (objs this v)) (orderedItems this)"
  shows "map_option fst (drain (snd (selectItems rect flt None this))) =
           Some (if isReverse this
                 then rev (filter (\<lambda>v. selects rect flt (objs this v)) (orderedItems this))
                 else filter (\<lambda>v. selects rect flt (objs this v)) (orderedItems this)) \<and>
         set (filter (\<lambda>v. selects rect flt (objs this v)) (orderedItems this)) =
           {v \<in> set (items this). selects rect flt (objs this v)} \<and>
         distinct (filter (\<lambda>v. selects rect flt (objs this v)) (orderedItems this)) \<and>
         (sorted_wrt P (orderedItems this) \<longrightarrow>
            sorted_wrt P (filter (\<lambda>v. selects rect flt (objs this v)) (orderedItems this)))"
proof -
  let ?t = "snd (selectItems rect flt None this)"
  let ?xs = "orderedItems this"
  have tr: "traversal None ?t = (if isReverse this then rev ?xs else ?xs)"
    by (rule traversal_selectItems)
  then have "distinct (traversal None ?t)"
    using assms(1) by simp
  from drain_filter [OF this]
  have "map_option fst (drain ?t) =
          Some (filter (\<lambda>v. has_flag FLAG_SELECTED (objs ?t v))
                 (if isReverse this then rev ?xs else ?xs))"
    by (simp only: tr)
  moreover have "filter (\<lambda>v. has_flag FLAG_SELECTED (objs ?t v)) ys =
                 filter (\<lambda>v. selects rect flt (objs this v)) ys" if "set ys = set ?xs" for ys
    using assms(2,3) that
    by (intro filter_cong) (auto simp: selected_selectItems list_all_iff)
  ultimately show ?thesis
    using assms(1,2) by (auto simp: rev_filter sorted_wrt_filter)
qed

lemma stale_tree_eval:
  "orderedItems stale_tree = [2, 0, 1]" "items stale_tree = [0, 1, 2]" "isReverse stale_tree"
  "has_flag FLAG_SELECTED (objs stale_tree 2)"
  "bounds (objs stale_tree 0) = bounds (sample_objs 0)"
  "bounds (objs stale_tree (Suc 0)) = bounds (sample_objs 1)"
  "bounds (objs stale_tree 2) = bounds (sample_objs 2)"
  "\<not> has_flag FLAG_SELECTED (objs stale_tree 0)" "\<not> has_flag FLAG_SELECTED (objs stale_tree (Suc 0))"
  by (simp_all add: stale_tree_def select_defs sample_defs)

text \<open>
  C1 as stated fails at \<open>stale_tree\<close>, where item 2 is still SELECTED from an earlier
  selection and the traversal is backward. Selecting the box of item 1, which the boxes of
  the items 0 and 1 intersect, and draining yields item 2 as well, whose box does not
  intersect it; and it yields item 1 before item 0, although item 0 is before item 1 and
  item 1 is not before item 0.
\<close>

theorem selectItems_drain_counterexample:
  "map_option fst (drain (snd (selectItems (Some (bounds (sample_objs 1))) None None stale_tree))) =
     Some [1, 0, 2] \<and>
   \<not> rect_intersects (bounds (sample_objs 1)) (bounds (objs stale_tree 2)) \<and>
   isBefore stale_tree 0 1 \<and> \<not> isBefore stale_tree 1 0"
proof -
  let ?t = "snd (selectItems (Some (bounds (sample_objs 1))) None None stale_tree)"
  have tr: "traversal None ?t = [1, 0, 2]"
    by (simp add: traversal_selectItems stale_tree_eval)
  then have "distinct (traversal None ?t)" by simp
  from drain_filter [OF this]
  have "map_option fst (drain ?t) =
          Some (filter (\<lambda>v. has_flag FLAG_SELECTED (objs ?t v)) [1, 0, 2])"
    by (simp only: tr)
  moreover have "filter (\<lambda>v. has_flag FLAG_SELECTED (objs ?t v)) [1, 0, 2] = [1, 0, 2]"
    by (simp add: selected_selectItems stale_tree_eval selects_def rect_intersects_def
        sample_objs_def new_item_def)
  ultimately have "map_option fst (drain ?t) = Some [1, 0, 2]"
    by (simp only:)
  moreover have "\<not> rect_intersects (bounds (sample_objs 1)) (bounds (objs stale_tree 2))"
    by (simp add: stale_tree_eval rect_intersects_def sample_objs_def new_item_def)
  moreover have "isBefore stale_tree 0 1 \<and> \<not> isBefore stale_tree 1 0"
    by (simp add: stale_tree_def select_defs sample_defs)
  ultimately show ?thesis by simp
qed

text \<open>The theorem at \<open>sample_tree\<close> and the box of item 1.\<close>

theorem selectItems_drain_witness:
  "distinct (orderedItems sample_tree) \<and> set (orderedItems sample_tree) = set (items sample_tree) \<and>
   list_all (\<lambda>v. \<not> has_flag FLAG_SELECTED (objs sample_tree v)) (orderedItems sample_tree) \<and>
   sorted_wrt (isBefore sample_tree) (orderedItems sample_tree) \<and>
   map_option fst (drain (snd (selectItems (Some (bounds (sample_objs 1))) None None sample_tree))) =
     Some [0, 1] \<and>
   sorted_wrt (isBefore sample_tree) [0, 1]"
proof -
  have h1: "distinct (orderedItems sample_tree)"
    and h2: "set (orderedItems sample_tree) = set (items sample_tree)"
    and h3: "list_all (\<lambda>v. \<not> has_flag FLAG_SELECTED (objs sample_tree v)) (orderedItems sample_tree)"
    by (simp_all add: sample_defs insert_commute)
  show ?thesis
    using h1 h2 h3
      selectItems_drain [OF h1 h2 h3, of "Some (bounds (sample_objs 1))" None "isBefore sample_tree"]
    by (simp add: selects_def rect_intersects_def sample_defs)
qed


subsection \<open>Sequences of additions and removals\<close>

lemma List_remove_sgetNode: "List_remove (List_sgetNode x xs) xs = remove1 x xs"
proof (induction xs)
  case Nil
  then show ?case by (simp add: List_remove_def)
next
  case (Cons w ws)
  then show ?case
    by (cases "List_sgetNode x ws") (auto simp: List_remove_def)
qed

lemma count_list_remove1:
  "count_list (remove1 x xs) y = (if x = y then count_list xs y - 1 else count_list xs y)"
  by (induction xs) auto

lemma count_list_addItemOrdered_scan:
  "count_list (addItemOrdered_scan this v xs) y = (if v = y then Suc (count_list xs y) else count_list xs y)"
  by (induction xs) auto

lemma attached_once_addItem:
  assumes "attached_once this" and "\<not> has_flag FLAG_ATTACHED (objs this x)"
  shows "attached_once (snd (addItem x this))"
  using assms
  by (auto simp: attached_once_def addItem_def QuadTreeNode_addItem_def addItemOrdered_def
      List_push_def count_list_addItemOrdered_scan has_flag_simps)

lemma attached_once_removeItem:
  assumes "attached_once this"
  shows "attached_once (snd (removeItem x this))"
  using assms
  by (auto simp: attached_once_def removeItem_def QuadTreeNode_removeItem_def
      List_remove_sgetNode count_list_remove1 has_flag_simps)

lemma attached_once_run:
  "attached_once this \<Longrightarrow> adds_detached cs this \<Longrightarrow> attached_once (run cs this)"
proof (induction cs this rule: run.induct)
  case (1 this)
  then show ?case by simp
next
  case (2 x cs this)
  then show ?case by (simp add: attached_once_addItem)
next
  case (3 x cs this)
  then show ?case by (simp add: attached_once_removeItem)
qed

lemma mset_addItem:
  "mset (items this) = mset (orderedItems this) \<Longrightarrow>
   mset (items (snd (addItem x this))) = mset (orderedItems (snd (addItem x this)))"
  by (simp add: addItem_def QuadTreeNode_addItem_def addItemOrdered_def List_push_def)

lemma mset_removeItem:
  "mset (items this) = mset (orderedItems this) \<Longrightarrow>
   mset (items (snd (removeItem x this))) = mset (orderedItems (snd (removeItem x this)))"
  by (simp add: removeItem_def QuadTreeNode_removeItem_def List_remove_sgetNode)

lemma mset_run:
  "mset (items this) = mset (orderedItems this) \<Longrightarrow>
   mset (items (run cs this)) = mset (orderedItems (run cs this))"
proof (induction cs this rule: run.induct)
  case (1 this)
  then show ?case by simp
next
  case (2 x cs this)
  then show ?case by (simp add: mset_addItem)
next
  case (3 x cs this)
  then show ?case by (simp add: mset_removeItem)
qed

text \<open>
  C2, as amended. After any sequence of \<open>addItem\<close> and \<open>removeItem\<close> calls from a new tree,
  \<open>items\<close> and \<open>orderedItems\<close> have the same size. When no item is ATTACHED at the start
  and no \<open>addItem\<close> call is for an item that is ATTACHED when it is made, every item that is
  ATTACHED after the sequence is in \<open>items\<close> once and in \<open>orderedItems\<close> once.
\<close>

theorem attached_items_once:
  assumes "\<forall>x. \<not> has_flag FLAG_ATTACHED (os x)"
    and "adds_detached cs (new_QuadTree ax ay bx by capacity os)"
  shows "length (items (run cs (new_QuadTree ax ay bx by capacity os))) =
           length (orderedItems (run cs (new_QuadTree ax ay bx by capacity os))) \<and>
         (\<forall>x. has_flag FLAG_ATTACHED (objs (run cs (new_QuadTree ax ay bx by capacity os)) x) \<longrightarrow>
            count_list (items (run cs (new_QuadTree ax ay bx by capacity os))) x = 1 \<and>
            count_list (orderedItems (run cs (new_QuadTree ax ay bx by capacity os))) x = 1) \<and>
         length (items (run cs' (new_QuadTree ax ay bx by capacity os))) =
           length (orderedItems (run cs' (new_QuadTree ax ay bx by capacity os)))"
proof -
  let ?t = "new_QuadTree ax ay bx by capacity os"
  have "attached_once ?t"
    using assms(1) by (simp add: attached_once_def new_QuadTree_def)
  from attached_once_run [OF this assms(2)]
  have a: "\<forall>x. has_flag FLAG_ATTACHED (objs (run cs ?t) x) \<longrightarrow>
            count_list (items (run cs ?t)) x = 1 \<and> count_list (orderedItems (run cs ?t)) x = 1"
    by (simp add: attached_once_def)
  have m: "mset (items ?t) = mset (orderedItems ?t)"
    by (simp add: new_QuadTree_def)
  have "length (items (run cs ?t)) = length (orderedItems (run cs ?t))"
    using mset_run [OF m, of cs] by (rule mset_eq_length)
  moreover have "length (items (run cs' ?t)) = length (orderedItems (run cs' ?t))"
    using mset_run [OF m, of cs'] by (rule mset_eq_length)
  ultimately show ?thesis using a by simp
qed

text \<open>
  C2 as stated fails for two \<open>addItem\<close> calls for the same item: the item is ATTACHED and
  is in \<open>orderedItems\<close> twice.
\<close>

theorem attached_items_once_counterexample:
  "has_flag FLAG_ATTACHED
     (objs (run [AddItem 0, AddItem 0] (new_QuadTree (- 100) (- 100) 100 100 4 sample_objs)) 0) \<and>
   count_list (orderedItems
     (run [AddItem 0, AddItem 0] (new_QuadTree (- 100) (- 100) 100 100 4 sample_objs))) 0 = 2"
  by (simp add: sample_objs_def tree_defs)

text \<open>The theorem at a sequence that adds two items, removes the first and adds it again.\<close>

theorem attached_items_once_witness:
  "(\<forall>x. \<not> has_flag FLAG_ATTACHED (sample_objs x)) \<and>
   adds_detached [AddItem 0, AddItem 1, RemoveItem 0, AddItem 0]
     (new_QuadTree (- 100) (- 100) 100 100 4 sample_objs) \<and>
   orderedItems (run [AddItem 0, AddItem 1, RemoveItem 0, AddItem 0]
     (new_QuadTree (- 100) (- 100) 100 100 4 sample_objs)) = [0, 1] \<and>
   items (run [AddItem 0, AddItem 1, RemoveItem 0, AddItem 0]
     (new_QuadTree (- 100) (- 100) 100 100 4 sample_objs)) = [1, 0] \<and>
   has_flag FLAG_ATTACHED (objs (run [AddItem 0, AddItem 1, RemoveItem 0, AddItem 0]
     (new_QuadTree (- 100) (- 100) 100 100 4 sample_objs)) 0)"
proof -
  have h1: "\<forall>x. \<not> has_flag FLAG_ATTACHED (sample_objs x)"
    by (simp add: sample_objs_def)
  have h2: "adds_detached [AddItem 0, AddItem 1, RemoveItem 0, AddItem 0]
     (new_QuadTree (- 100) (- 100) 100 100 4 sample_objs)"
    by (simp add: sample_objs_def tree_defs removeItem_def QuadTreeNode_removeItem_def List_remove_def)
  show ?thesis
    using h1 h2 attached_items_once [OF h1 h2]
    by (simp add: sample_objs_def tree_defs removeItem_def QuadTreeNode_removeItem_def List_remove_def)
qed


subsection \<open>Toggling the direction of Y\<close>

lemma supplied_transitive:
  assumes "supplied (fnComparator this)"
    and "isBefore this a b \<or> \<not> isBefore this b a"
    and "isBefore this b c \<or> \<not> isBefore this c b"
  shows "isBefore this a c \<or> \<not> isBefore this c a"
proof (cases "fnComparator this")
  case DEFAULT_YX
  with assms(2,3) show ?thesis
    by (cases "xd this"; cases "yd this"; cases "zd this")
       (simp_all add: isBefore_def COMPARATOR_DEFAULT_YX_def, linarith+)
next
  case DEFAULT_XY
  with assms(2,3) show ?thesis
    by (cases "xd this"; cases "yd this"; cases "zd this")
       (simp_all add: isBefore_def COMPARATOR_DEFAULT_XY_def, linarith+)
next
  case MANHATTAN
  with assms(2,3) show ?thesis
    by (cases "zd this")
       (simp_all add: isBefore_def COMPARATOR_MANHATTAN_def, linarith+)
next
  case Y2
  with assms(2,3) show ?thesis
    by (cases "xd this"; cases "yd this"; cases "zd this")
       (simp_all add: isBefore_def COMPARATOR_Y2_def, linarith+)
next
  case Y1
  with assms(2,3) show ?thesis
    by (cases "yd this") (auto simp: isBefore_def COMPARATOR_Y1_def)
next
  case X2
  with assms(2,3) show ?thesis
    by (cases "xd this") (auto simp: isBefore_def COMPARATOR_X2_def)
next
  case X1
  with assms(2,3) show ?thesis
    by (cases "xd this") (auto simp: isBefore_def COMPARATOR_X1_def)
next
  case (CUSTOM f)
  with assms(1) show ?thesis by simp
qed


lemma sorted_addItemOrdered_scan:
  assumes "supplied (fnComparator this)"
    and "sorted_wrt (\<lambda>a b. isBefore this a b \<or> \<not> isBefore this b a) xs"
  shows "sorted_wrt (\<lambda>a b. isBefore this a b \<or> \<not> isBefore this b a)
           (addItemOrdered_scan this v xs)"
  using assms(2)
proof (induction xs)
  case Nil
  then show ?case by simp
next
  case (Cons w ws)
  show ?case
  proof (cases "isBefore this v w")
    case True
    have "isBefore this v u \<or> \<not> isBefore this u v" if "u \<in> set ws" for u
      using supplied_transitive [OF assms(1), of v w u] True Cons.prems that by auto
    with True Cons.prems show ?thesis by auto
  next
    case False
    with Cons show ?thesis by auto
  qed
qed

lemma reorderItems_loop_sorted:
  assumes "supplied (fnComparator this)"
    and "sorted_wrt (\<lambda>a b. isBefore this a b \<or> \<not> isBefore this b a) (orderedItems this)"
  shows "sorted_wrt (\<lambda>a b. isBefore this a b \<or> \<not> isBefore this b a)
           (orderedItems (reorderItems_loop vs this))"
  using assms
proof (induction vs arbitrary: this)
  case Nil
  then show ?case by simp
next
  case (Cons v vs)
  have c: "supplied (fnComparator (addItemOrdered v this))"
    using Cons.prems(1) by (simp add: addItemOrdered_def)
  have "sorted_wrt
          (\<lambda>a b. isBefore (addItemOrdered v this) a b \<or> \<not> isBefore (addItemOrdered v this) b a)
          (orderedItems (addItemOrdered v this))"
    using sorted_addItemOrdered_scan [OF Cons.prems]
    by (simp add: addItemOrdered_def)
  from Cons.IH [OF c this] show ?case by simp
qed

lemma reorderItems_loop_frame [simp]:
  "objs (reorderItems_loop vs this) = objs this"
  "fnComparator (reorderItems_loop vs this) = fnComparator this"
  "xd (reorderItems_loop vs this) = xd this" "yd (reorderItems_loop vs this) = yd this"
  "zd (reorderItems_loop vs this) = zd this"
  by (induction vs arbitrary: this) (simp_all add: addItemOrdered_def)

lemma reorderItems_frame [simp]:
  "objs (reorderItems this) = objs this"
  "fnComparator (reorderItems this) = fnComparator this"
  "xd (reorderItems this) = xd this" "yd (reorderItems this) = yd this"
  "zd (reorderItems this) = zd this"
  by (simp_all add: reorderItems_def Let_def)

lemma isBefore_reorderItems [simp]: "isBefore (reorderItems this) = isBefore this"
  using reorderItems_loop_invariant [of "this\<lparr>orderedItems := []\<rparr>" "orderedItems this"]
  by (simp add: reorderItems_def Let_def)

lemma reorderItems_sorted:
  assumes "supplied (fnComparator this)"
  shows "sorted_wrt (\<lambda>a b. isBefore this a b \<or> \<not> isBefore this b a)
           (orderedItems (reorderItems this))"
  using reorderItems_loop_sorted [of "this\<lparr>orderedItems := []\<rparr>" "orderedItems this"] assms
  by (simp add: reorderItems_def Let_def)


lemma mset_reorderItems [simp]: "mset (orderedItems (reorderItems this)) = mset (orderedItems this)"
  using reorderItems_loop_invariant [of "this\<lparr>orderedItems := []\<rparr>" "orderedItems this"]
  by (simp add: reorderItems_def Let_def)

lemma isBefore_cong:
  assumes "objs s = objs t" "fnComparator s = fnComparator t"
    "xd s = xd t" "yd s = yd t" "zd s = zd t"
  shows "isBefore s = isBefore t"
  using assms
  by (cases "fnComparator t")
     (simp_all add: isBefore_def fun_eq_iff axes.truncate_def comparator_defs)

lemma sorted_wrt_precedes:
  assumes "sorted_wrt R xs" and "precedes xs a b"
  shows "R a b"
proof -
  from assms(2) have b: "b \<in> set (dropWhile (\<lambda>v. v \<noteq> a) xs)" and ab: "a \<noteq> b"
    by (simp_all add: precedes_def)
  then obtain rest where d: "dropWhile (\<lambda>v. v \<noteq> a) xs = a # rest"
    using hd_dropWhile [of "\<lambda>v. v \<noteq> a" xs]
    by (cases "dropWhile (\<lambda>v. v \<noteq> a) xs") auto
  have "sorted_wrt R (takeWhile (\<lambda>v. v \<noteq> a) xs @ dropWhile (\<lambda>v. v \<noteq> a) xs)"
    using assms(1) by simp
  then have "sorted_wrt R (a # rest)"
    unfolding d sorted_wrt_append by simp
  with b ab d show ?thesis by auto
qed

lemma precedes_total:
  "a \<in> set xs \<Longrightarrow> b \<in> set xs \<Longrightarrow> a \<noteq> b \<Longrightarrow> precedes xs a b \<or> precedes xs b a"
  by (induction xs) (auto simp: precedes_def)

lemma compares_y_flip:
  assumes "zindex (objs this a) = zindex (objs this b)"
    and "x1 (insertionBounds (objs this a)) = x1 (insertionBounds (objs this b))"
    and "compares_y this (objs this a) (objs this b)"
  shows "isBefore this a b \<longleftrightarrow> \<not> isBefore this b a"
    and "isBefore (this\<lparr>yd := \<not> yd this\<rparr>) a b \<longleftrightarrow> \<not> isBefore this a b"
    and "isBefore (this\<lparr>yd := \<not> yd this\<rparr>) b a \<longleftrightarrow> \<not> isBefore this b a"
    and "a \<noteq> b"
  using assms
  by (cases "fnComparator this";
      auto simp: compares_y_def isBefore_def comparator_defs)+


lemma precedes_reorderItems:
  assumes "supplied (fnComparator this)"
    and "isBefore this a b \<longleftrightarrow> \<not> isBefore this b a"
    and "a \<noteq> b" and "a \<in> set (orderedItems this)" and "b \<in> set (orderedItems this)"
  shows "precedes (orderedItems (reorderItems this)) a b \<longleftrightarrow> isBefore this a b"
proof
  assume "precedes (orderedItems (reorderItems this)) a b"
  from sorted_wrt_precedes [OF reorderItems_sorted [OF assms(1)] this] assms(2)
  show "isBefore this a b" by blast
next
  assume ab: "isBefore this a b"
  have "a \<in> set (orderedItems (reorderItems this))" "b \<in> set (orderedItems (reorderItems this))"
    using assms(4,5) mset_reorderItems [of this] by (metis set_mset_mset)+
  from precedes_total [OF this assms(3)]
  show "precedes (orderedItems (reorderItems this)) a b"
  proof
    assume "precedes (orderedItems (reorderItems this)) b a"
    from sorted_wrt_precedes [OF reorderItems_sorted [OF assms(1)] this] assms(2) ab
    show ?thesis by blast
  qed
qed

lemma compares_y_supplied: "compares_y this p q \<Longrightarrow> supplied (fnComparator this)"
  by (cases "fnComparator this") (simp_all add: compares_y_def)

text \<open>
  Sums round: 2^53 + 1 is not a double, and items with \<open>y1\<close> 0 and 1 on layer 2^53 have
  the same sum under \<open>COMPARATOR_Y1\<close>, so that comparator does not decide between them.
\<close>

lemma js_add_rounds:
  "js_add 0 (2 ^ 53) = 2 ^ 53" "js_add 1 (2 ^ 53) = 2 ^ 53" "js_add 3 (2 ^ 53) = 2 ^ 53 + 4"
  by code_simp+

lemma compares_y_rounded_tie:
  "\<not> compares_y (this\<lparr>fnComparator := Y1\<rparr>)
       (new_item 0 0 10 10 (2 ^ 53)) (new_item 0 1 10 11 (2 ^ 53))"
  using js_add_rounds(1,2) by (simp add: compares_y_def new_item_def)

text \<open>
  C4, as amended. For a supplied comparator that reads \<open>yd\<close>, with the direction flags of
  the axes it compares before Y unset (\<open>COMPARATOR_DEFAULT_YX\<close> and \<open>COMPARATOR_Y2\<close> with
  \<open>zd\<close> false, \<open>COMPARATOR_DEFAULT_XY\<close> with \<open>zd\<close> and \<open>xd\<close> false, \<open>COMPARATOR_Y1\<close>), and
  for any two items of \<open>orderedItems\<close> that tie on Z and X and differ in the Y value the
  comparator compares (\<open>y1\<close>; \<open>y2\<close> for \<open>COMPARATOR_Y2\<close>; for \<open>COMPARATOR_Y1\<close> the rounded
  sum of \<open>y1\<close> and the Z-index, so not two items whose sums round to the same number):
  after \<open>reorderItems()\<close>, toggling \<open>yd\<close> and calling \<open>reorderItems()\<close> again puts the one
  before the other exactly if it was after it; the list holds the same items, and no item
  object is changed.
\<close>

theorem yd_toggle_reverses:
  assumes "zindex (objs this a) = zindex (objs this b)"
    and "x1 (insertionBounds (objs this a)) = x1 (insertionBounds (objs this b))"
    and "compares_y this (objs this a) (objs this b)"
    and "a \<in> set (orderedItems this)" and "b \<in> set (orderedItems this)"
  shows "(precedes (orderedItems (reorderItems (snd (setYd (\<not> yd this) (reorderItems this))))) a b
            \<longleftrightarrow> precedes (orderedItems (reorderItems this)) b a) \<and>
         objs (reorderItems (snd (setYd (\<not> yd this) (reorderItems this)))) = objs this \<and>
         mset (orderedItems (reorderItems (snd (setYd (\<not> yd this) (reorderItems this))))) =
           mset (orderedItems this)"
proof -
  let ?t1 = "reorderItems this"
  let ?s = "snd (setYd (\<not> yd this) ?t1)"
  note flip = compares_y_flip [OF assms(1-3)]
  have sup: "supplied (fnComparator this)"
    using assms(3) by (rule compares_y_supplied)
  have s: "?s = ?t1\<lparr>yd := \<not> yd this\<rparr>"
    by (simp add: setYd_def)
  have bs: "isBefore (?t1\<lparr>yd := \<not> yd this\<rparr>) = isBefore (this\<lparr>yd := \<not> yd this\<rparr>)"
    by (rule isBefore_cong) simp_all
  have mem: "a \<in> set (orderedItems ?s)" "b \<in> set (orderedItems ?s)"
    using assms(4,5) mset_reorderItems [of this] unfolding s by (simp; metis set_mset_mset)+
  have "precedes (orderedItems (reorderItems ?s)) a b \<longleftrightarrow> isBefore ?s a b"
    using sup flip mem by (intro precedes_reorderItems) (simp_all add: s bs)
  moreover have "precedes (orderedItems ?t1) b a \<longleftrightarrow> isBefore this b a"
    using sup flip assms(4,5) by (intro precedes_reorderItems) auto
  ultimately show ?thesis
    using flip by (simp add: s bs)
qed

lemmas stacked_defs = stacked_tree_def tree_defs reorderItems_def setYd_def setComparator_def Let_def

text \<open>The theorem at \<open>stacked_tree\<close>, whose comparator is \<open>COMPARATOR_DEFAULT_YX\<close>.\<close>

theorem yd_toggle_reverses_witness:
  "zindex (objs stacked_tree 1) = zindex (objs stacked_tree 0) \<and>
   x1 (insertionBounds (objs stacked_tree 1)) = x1 (insertionBounds (objs stacked_tree 0)) \<and>
   compares_y stacked_tree (objs stacked_tree 1) (objs stacked_tree 0) \<and>
   1 \<in> set (orderedItems stacked_tree) \<and> 0 \<in> set (orderedItems stacked_tree) \<and>
   orderedItems (reorderItems stacked_tree) = [0, 1] \<and>
   orderedItems (reorderItems (snd (setYd (\<not> yd stacked_tree) (reorderItems stacked_tree)))) = [1, 0] \<and>
   precedes (orderedItems (reorderItems (snd (setYd (\<not> yd stacked_tree) (reorderItems stacked_tree))))) 1 0"
proof -
  have h: "zindex (objs stacked_tree 1) = zindex (objs stacked_tree 0)"
    "x1 (insertionBounds (objs stacked_tree 1)) = x1 (insertionBounds (objs stacked_tree 0))"
    "compares_y stacked_tree (objs stacked_tree 1) (objs stacked_tree 0)"
    "1 \<in> set (orderedItems stacked_tree)" "0 \<in> set (orderedItems stacked_tree)"
    by (simp_all add: compares_y_def stacked_defs)
  have o: "orderedItems (reorderItems stacked_tree) = [0, 1]"
    "orderedItems (reorderItems (snd (setYd (\<not> yd stacked_tree) (reorderItems stacked_tree)))) = [1, 0]"
    by (simp_all add: stacked_defs)
  show ?thesis
    using yd_toggle_reverses [OF h] h o by (simp add: precedes_def)
qed

text \<open>
  C4 as stated fails for \<open>COMPARATOR_MANHATTAN\<close>, which compares the sums of the centre
  coordinates under no flag: the two items of \<open>stacked_tree\<close> tie on Z and X and differ in
  Y, and they are in the same order before and after \<open>yd\<close> is toggled and the list reordered.
\<close>

theorem yd_toggle_reverses_counterexample:
  "zindex (objs stacked_tree 0) = zindex (objs stacked_tree 1) \<and>
   x1 (bounds (objs stacked_tree 0)) = x1 (bounds (objs stacked_tree 1)) \<and>
   x2 (bounds (objs stacked_tree 0)) = x2 (bounds (objs stacked_tree 1)) \<and>
   y1 (bounds (objs stacked_tree 0)) < y1 (bounds (objs stacked_tree 1)) \<and>
   orderedItems (reorderItems (snd (setComparator MANHATTAN stacked_tree))) = [0, 1] \<and>
   orderedItems (reorderItems (snd (setYd True
     (reorderItems (snd (setComparator MANHATTAN stacked_tree)))))) = [0, 1]"
  by (simp add: stacked_defs)


end
